theory Spec2Isabelle
  imports Main "HOL-Library.Word" "HOL-Library.Signed_Division"
begin

section \<open>Machine integers and time\<close>

text \<open>
  Go's \<open>int\<close>, \<open>int64\<close> and \<open>time.Duration\<close> are 64-bit two's complement,
  \<open>uint64\<close> is 64-bit unsigned. They are modelled as \<open>int\<close> with the wrap-around
  written out: \<open>to_int64\<close> after every signed operation that can leave the range,
  \<open>to_uint64\<close> after every unsigned one.
\<close>

definition to_int64 :: "int \<Rightarrow> int" where
  "to_int64 x = (x + 2 ^ 63) mod 2 ^ 64 - 2 ^ 63"

definition to_uint64 :: "int \<Rightarrow> int" where
  "to_uint64 x = x mod 2 ^ 64"

definition minDuration :: int where
  "minDuration = - (2 ^ 63)"

definition maxDuration :: int where
  "maxDuration = 2 ^ 63 - 1"

definition Second :: int where
  "Second = 1000000000"

definition Minute :: int where
  "Minute = 60 * Second"


text \<open>
  A \<open>time.Time\<close> without a monotonic clock reading, or compared with one that has
  none, is read through its wall clock: \<open>secs\<close>, the seconds since January 1 of year 1
  (an \<open>int64\<close>), and \<open>nsecs\<close>, the nanoseconds within the second.
  \<open>time.Unix(sec, nsec)\<close> brings \<open>nsec\<close> into the range of one second and adds the
  seconds between year 1 and 1970 to \<open>sec\<close>, in \<open>int64\<close>. \<open>Now nowNano\<close> is the
  value of \<open>time.Now()\<close> at the instant whose \<open>UnixNano()\<close> is \<open>nowNano\<close>.
  \<open>t.Add(d)\<close> adds a duration, the seconds saturated at the ends of \<open>int64\<close>.
  \<open>t.Sub(u)\<close> computes the difference in \<open>int64\<close> and, when adding it back to
  \<open>u\<close> does not give \<open>t\<close>, returns the smallest or the largest \<open>Duration\<close>.
  \<open>time.Since(u)\<close> is \<open>time.Now().Sub(u)\<close>.
\<close>

definition unixToInternal :: int where
  "unixToInternal = 62135596800"

record Time =
  secs :: int
  nsecs :: int

definition Unix :: "int \<Rightarrow> int \<Rightarrow> Time" where
  "Unix sec nsec =
     (let norm =
        (if nsec < 0 \<or> nsec \<ge> 1000000000 then
           (let n = nsec sdiv 1000000000;
                sec1 = to_int64 (sec + n);
                nsec1 = to_int64 (nsec - to_int64 (n * 1000000000))
            in if nsec1 < 0 then (to_int64 (sec1 - 1), to_int64 (nsec1 + 1000000000))
               else (sec1, nsec1))
         else (sec, nsec))
      in \<lparr>secs = to_int64 (fst norm + unixToInternal), nsecs = snd norm\<rparr>)"

definition Now :: "int \<Rightarrow> Time" where
  "Now nowNano =
     \<lparr>secs = nowNano div 1000000000 + unixToInternal, nsecs = nowNano mod 1000000000\<rparr>"

definition addSec :: "Time \<Rightarrow> int \<Rightarrow> Time" where
  "addSec t d =
     (let sum = to_int64 (secs t + d)
      in if (sum > secs t) = (d > 0) then t\<lparr>secs := sum\<rparr>
         else if d > 0 then t\<lparr>secs := 2 ^ 63 - 1\<rparr>
         else t\<lparr>secs := - (2 ^ 63 - 1)\<rparr>)"

definition Add :: "Time \<Rightarrow> int \<Rightarrow> Time" where
  "Add t d =
     (let dsec = d sdiv 1000000000;
          nsec = nsecs t + d smod 1000000000
      in if nsec \<ge> 1000000000 then addSec (t\<lparr>nsecs := nsec - 1000000000\<rparr>) (dsec + 1)
         else if nsec < 0 then addSec (t\<lparr>nsecs := nsec + 1000000000\<rparr>) (dsec - 1)
         else addSec (t\<lparr>nsecs := nsec\<rparr>) dsec)"

definition Equal :: "Time \<Rightarrow> Time \<Rightarrow> bool" where
  "Equal t u = (secs t = secs u \<and> nsecs t = nsecs u)"

definition Before :: "Time \<Rightarrow> Time \<Rightarrow> bool" where
  "Before t u = (secs t < secs u \<or> secs t = secs u \<and> nsecs t < nsecs u)"

definition Sub :: "Time \<Rightarrow> Time \<Rightarrow> int" where
  "Sub t u =
     (let d = to_int64 (to_int64 (to_int64 (secs t - secs u) * Second) + (nsecs t - nsecs u))
      in if Equal (Add u d) t then d
         else if Before t u then minDuration
         else maxDuration)"

definition Since :: "int \<Rightarrow> Time \<Rightarrow> int" where
  "Since nowNano u = Sub (Now nowNano) u"

text \<open>
  \<open>time.NewTicker(d)\<close> panics when \<open>d\<close> is not positive, otherwise it ticks
  with period \<open>d\<close>.
\<close>

datatype ticker = PanicNonPositiveInterval | Ticker (period: int)

definition NewTicker :: "int \<Rightarrow> ticker" where
  "NewTicker d = (if d \<le> 0 then PanicNonPositiveInterval else Ticker d)"

section \<open>Connection: activity stamp and the idle branch of the control loop\<close>

text \<open>
  The fields of \<open>Conn\<close> that the lifecycle and the idle check read or write.
  \<open>last\<close> is the atomic \<open>int64\<close> written by \<open>Touch\<close>; \<open>canceled\<close> says that
  \<open>Ctx\<close> is done; \<open>startDone\<close> and \<open>closeDone\<close> are the two \<open>sync.Once\<close>;
  \<open>sendChClosed\<close> and \<open>closedSignaled\<close> are the closed states of the channels
  \<open>sendCh\<close> and \<open>closed\<close>; \<open>sendQ\<close> holds the frames queued on \<open>sendCh\<close>
  (a frame is named by a number). \<open>writerDraining\<close> and \<open>writerDone\<close> say where
  \<open>writeLoop\<close> stands, \<open>idleNotified\<close> is the local flag of \<open>mainLoop\<close>.
  \<open>hooks\<close> is the list of hook dispatches, oldest first.
\<close>

datatype hook_event =
    OnConnect | OnClose | OnTick | OnIdle | OnSend | OnWrite bool | OnRead | OnError

record conn =
  active :: bool
  last :: int
  canceled :: bool
  startDone :: bool
  closeDone :: bool
  sendChClosed :: bool
  closedSignaled :: bool
  sendQ :: "nat list"
  writerDraining :: bool
  writerDone :: bool
  idleNotified :: bool
  hooks :: "hook_event list"

definition Touch :: "int \<Rightarrow> conn \<Rightarrow> conn" where
  \<comment> \<open>\<open>c.last.Store(time.Now().UnixNano())\<close>; the argument is \<open>time.Now().UnixNano()\<close>\<close>
  "Touch nowNano c = c\<lparr>last := nowNano\<rparr>"

definition LastActive :: "conn \<Rightarrow> Time" where
  \<comment> \<open>\<open>time.Unix(0, c.last.Load())\<close>\<close>
  "LastActive c = Unix 0 (last c)"

definition dispatchHook :: "hook_event \<Rightarrow> conn \<Rightarrow> conn" where
  "dispatchHook e c = c\<lparr>hooks := hooks c @ [e]\<rparr>"

text \<open>
  The \<open>case <-idleCh\<close> branch of \<open>mainLoop\<close>: \<open>now\<close> is the instant of
  \<open>time.Now()\<close>, as its \<open>UnixNano()\<close>, \<open>idleTimeout\<close> is \<open>c.Cfg.IdleTimeout\<close> and
  \<open>notified\<close> the loop's local flag \<open>idleNotified\<close>. The result is the new flag
  and the connection.
\<close>

definition idleTick :: "int \<Rightarrow> int \<Rightarrow> bool \<Rightarrow> conn \<Rightarrow> bool \<times> conn" where
  "idleTick now idleTimeout notified c =
     (let lastT = Unix (last c) 0 in
      if Since now lastT > idleTimeout then
        (if \<not> notified then (True, dispatchHook OnIdle c) else (notified, c))
      else (False, c))"

subsection \<open>Lifecycle operations\<close>

definition NewConn :: conn where
  "NewConn = \<lparr>active = False, last = 0, canceled = False, startDone = False,
     closeDone = False, sendChClosed = False, closedSignaled = False, sendQ = [],
     writerDraining = False, writerDone = False, idleNotified = False, hooks = []\<rparr>"

definition IsActive :: "conn \<Rightarrow> bool" where
  "IsActive c = active c"

definition Cancel :: "conn \<Rightarrow> conn" where
  "Cancel c = c\<lparr>canceled := True\<rparr>"

text \<open>
  \<open>Start\<close>: under \<open>startOnce\<close>, the loops and the transport are launched, then
  \<open>active\<close> is stored, the stamp is touched and the connect hook dispatched.
\<close>

definition Start :: "int \<Rightarrow> conn \<Rightarrow> conn" where
  "Start nowNano c =
     (if startDone c then c
      else dispatchHook OnConnect (Touch nowNano (c\<lparr>startDone := True, active := True\<rparr>)))"

text \<open>\<open>Close\<close>: under \<open>closeOnce\<close>, the scope is canceled.\<close>

definition Close :: "conn \<Rightarrow> conn" where
  "Close c = (if closeDone c then c else Cancel (c\<lparr>closeDone := True\<rparr>))"

text \<open>
  \<open>Send\<close>. \<open>encOk\<close> says whether the encoder returned no error. The \<open>select\<close>
  has two cases: the scope is done, and the send on \<open>sendCh\<close>, which can proceed when
  the channel has room (10000 slots) and also when it is closed, where it panics. When
  both can proceed Go picks one at random: \<open>pickDone\<close> is that choice. When neither
  can, the caller waits. The two places that return \<open>net.ErrClosed\<close> are told apart.
\<close>

datatype send_result =
    ErrClosedInactive | EncoderError | ErrClosedScope | SendOk
  | PanicSendOnClosedChannel | SendWaits

definition Send :: "bool \<Rightarrow> bool \<Rightarrow> nat \<Rightarrow> conn \<Rightarrow> send_result \<times> conn" where
  "Send encOk pickDone buf c =
     (if \<not> IsActive c then (ErrClosedInactive, c)
      else if \<not> encOk then (EncoderError, c)
      else
        let doneReady = canceled c;
            sendReady = (sendChClosed c \<or> length (sendQ c) < 10000)
        in if doneReady \<and> (pickDone \<or> \<not> sendReady) then (ErrClosedScope, c)
           else if sendReady then
             (if sendChClosed c then (PanicSendOnClosedChannel, c)
              else (SendOk, dispatchHook OnSend (c\<lparr>sendQ := sendQ c @ [buf]\<rparr>)))
           else (SendWaits, c))"

text \<open>\<open>Recv\<close>, as far as the lifecycle goes: the stamp is touched and the read hook
  dispatched (framing is modelled on its own below).\<close>

definition Recv :: "int \<Rightarrow> conn \<Rightarrow> conn" where
  "Recv nowNano c = dispatchHook OnRead (Touch nowNano c)"

text \<open>
  \<open>writeLoop\<close>, one turn of \<open>for buf := range c.sendCh\<close>: the transport's write
  returns \<open>w\<close>, the stamp is touched and the write hook dispatched; on
  \<open>net.ErrClosed\<close> the loop starts draining. \<open>writeDrain\<close> is one turn of the inner
  \<open>for range c.sendCh\<close>, which ends when the channel is closed and empty; then the
  scope is canceled. \<open>writeExit\<close> is the end of the outer loop on a closed, empty channel.
\<close>

datatype write_result = WriteOk | WriteErrClosed | WriteErrOther

definition writeStep :: "write_result \<Rightarrow> int \<Rightarrow> conn \<Rightarrow> conn" where
  "writeStep w nowNano c =
     (if writerDraining c \<or> writerDone c then c
      else case sendQ c of
        [] \<Rightarrow> c
      | buf # q \<Rightarrow>
          let c1 = dispatchHook (OnWrite (w = WriteOk)) (Touch nowNano (c\<lparr>sendQ := q\<rparr>))
          in if w = WriteErrClosed then c1\<lparr>writerDraining := True\<rparr> else c1)"

definition writeDrain :: "conn \<Rightarrow> conn" where
  "writeDrain c =
     (if \<not> writerDraining c \<or> writerDone c then c
      else case sendQ c of
        buf # q \<Rightarrow> c\<lparr>sendQ := q\<rparr>
      | [] \<Rightarrow> if sendChClosed c then (Cancel c)\<lparr>writerDone := True\<rparr> else c)"

definition writeExit :: "conn \<Rightarrow> conn" where
  "writeExit c =
     (if \<not> writerDraining c \<and> sendQ c = [] \<and> sendChClosed c
      then c\<lparr>writerDone := True\<rparr> else c)"

text \<open>
  \<open>mainLoop\<close>: the tick branch; the branch on a canceled scope, which closes
  \<open>sendCh\<close> and waits for the workers; and the deferred end, which dispatches the close
  hook and closes \<open>closed\<close>.
\<close>

definition mainTick :: "conn \<Rightarrow> conn" where
  "mainTick c = dispatchHook OnTick c"

definition mainIdleTick :: "int \<Rightarrow> int \<Rightarrow> conn \<Rightarrow> conn" where
  "mainIdleTick now idleTimeout c =
     (case idleTick now idleTimeout (idleNotified c) c of
        (n, c1) \<Rightarrow> c1\<lparr>idleNotified := n\<rparr>)"

definition mainCancel :: "conn \<Rightarrow> conn" where
  "mainCancel c =
     (if startDone c \<and> canceled c \<and> \<not> sendChClosed c then c\<lparr>sendChClosed := True\<rparr> else c)"

definition mainFinish :: "conn \<Rightarrow> conn" where
  "mainFinish c =
     (if sendChClosed c \<and> writerDone c \<and> \<not> closedSignaled c
      then (dispatchHook OnClose c)\<lparr>closedSignaled := True\<rparr> else c)"

text \<open>What can happen to a connection, and a run of such events in order.\<close>

datatype event =
    EvStart int | EvClose | EvParentCancel | EvRecv int | EvSend bool bool nat
  | EvWrite write_result int | EvWriteDrain | EvWriteExit
  | EvTick | EvIdleTick int int | EvMainCancel | EvMainFinish

fun step :: "conn \<Rightarrow> event \<Rightarrow> conn" where
  "step c (EvStart t) = Start t c"
| "step c EvClose = Close c"
| "step c EvParentCancel = Cancel c"
| "step c (EvRecv t) = Recv t c"
| "step c (EvSend encOk pickDone buf) = snd (Send encOk pickDone buf c)"
| "step c (EvWrite w t) = writeStep w t c"
| "step c EvWriteDrain = writeDrain c"
| "step c EvWriteExit = writeExit c"
| "step c EvTick = mainTick c"
| "step c (EvIdleTick now idleTimeout) = mainIdleTick now idleTimeout c"
| "step c EvMainCancel = mainCancel c"
| "step c EvMainFinish = mainFinish c"

definition run :: "conn \<Rightarrow> event list \<Rightarrow> conn" where
  "run c evs = foldl step c evs"

section \<open>Token bucket and rate-limit middleware\<close>

text \<open>
  \<open>AtomicBucket\<close>. All fields are \<open>int64\<close>. One caller at a time is modelled, so
  each compare-and-swap succeeds at its first attempt. The time argument of
  \<open>NewAtomicBucket\<close> and of \<open>Allow\<close> is the value of \<open>time.Now().UnixNano()\<close>
  read inside the call.
\<close>

record AtomicBucket =
  capacity :: int
  tokens :: int
  refillRate :: int
  lastRefill :: int
  lastAccess :: int

definition NewAtomicBucket :: "int \<Rightarrow> int \<Rightarrow> int \<Rightarrow> AtomicBucket" where
  "NewAtomicBucket rate burst now =
     \<lparr>capacity = burst, tokens = burst, refillRate = rate, lastRefill = now, lastAccess = now\<rparr>"

definition refill :: "int \<Rightarrow> AtomicBucket \<Rightarrow> AtomicBucket" where
  \<comment> \<open>the first half of \<open>Allow\<close>, up to the comment on consuming a token\<close>
  "refill now b =
     (let lastv = lastRefill b;
          elapsed = to_int64 (now - lastv)
      in if elapsed > 0 then
           (let newTokens = to_int64 (elapsed * refillRate b) sdiv 1000000000
            in if newTokens > 0 then
                 (let old = tokens b;
                      newVal = to_int64 (old + newTokens);
                      newVal2 = (if newVal > capacity b then capacity b else newVal)
                  in b\<lparr>tokens := newVal2, lastRefill := now\<rparr>)
               else b)
         else b)"

definition Allow :: "int \<Rightarrow> AtomicBucket \<Rightarrow> bool \<times> AtomicBucket" where
  "Allow now b =
     (let b1 = refill now b;
          old = tokens b1
      in if old \<le> 0 then (False, b1\<lparr>lastAccess := now\<rparr>)
         else (True, b1\<lparr>tokens := to_int64 (old - 1), lastAccess := now\<rparr>))"

text \<open>A sequence of \<open>Allow\<close> calls on one bucket, at the given times: the answers in
  order, and the bucket afterwards.\<close>

fun allows :: "AtomicBucket \<Rightarrow> int list \<Rightarrow> bool list \<times> AtomicBucket" where
  "allows b [] = ([], b)"
| "allows b (t # ts) =
     (case Allow t b of (ok, b1) \<Rightarrow>
        (case allows b1 ts of (oks, b2) \<Rightarrow> (ok # oks, b2)))"

definition granted :: "bool list \<Rightarrow> int" where
  "granted oks = int (length (filter (\<lambda>ok. ok) oks))"

text \<open>
  For the bound on the number of grants: \<open>pot T b\<close> is what bucket \<open>b\<close> can still
  grant up to the instant \<open>T\<close>, its tokens and the refill its rate earns from the last
  refill to \<open>T\<close>; \<open>bucket_ok T b\<close> says that the fields are in the range of their
  type, with a rate and stamps that are not negative.
\<close>

definition pot :: "int \<Rightarrow> AtomicBucket \<Rightarrow> int" where
  "pot T b = max 0 (tokens b) + (refillRate b * (T - lastRefill b)) div 1000000000"

definition bucket_ok :: "int \<Rightarrow> AtomicBucket \<Rightarrow> bool" where
  "bucket_ok T b = (0 \<le> refillRate b \<and> 0 \<le> lastRefill b \<and> lastRefill b \<le> T \<and> T < 2 ^ 63
      \<and> - (2 ^ 63) \<le> tokens b \<and> tokens b \<le> capacity b \<and> capacity b < 2 ^ 63)"

text \<open>
  \<open>RateLimitHandler\<close>: the handler it returns, run on one message. The closure's state
  is the \<open>sync.Map\<close> of per-connection buckets and the global bucket. \<open>hasLimit\<close> says
  that \<open>limit\<close> is not nil. \<open>tNew\<close>, \<open>tConn\<close> and \<open>tGlobal\<close> are the clock
  readings of \<open>NewAtomicBucket\<close> (the argument of \<open>LoadOrStore\<close>, built on every
  message), of \<open>tb.Allow()\<close> and of \<open>global.Allow()\<close>; the latter is only called when
  the former granted. The result says what the handler calls.
\<close>

record limiter =
  connBuckets :: "string \<rightharpoonup> AtomicBucket"
  global :: AtomicBucket

datatype limiter_call = CallsNext | CallsLimit | CallsNothing

definition NewRateLimiter :: "int \<Rightarrow> int \<Rightarrow> int \<Rightarrow> limiter" where
  "NewRateLimiter globalRate globalBurst now =
     \<lparr>connBuckets = Map.empty, global = NewAtomicBucket globalRate globalBurst now\<rparr>"

definition LoadOrStore :: "(string \<rightharpoonup> AtomicBucket) \<Rightarrow> string \<Rightarrow> AtomicBucket
    \<Rightarrow> AtomicBucket \<times> (string \<rightharpoonup> AtomicBucket)" where
  "LoadOrStore m k v = (case m k of Some b \<Rightarrow> (b, m) | None \<Rightarrow> (v, m(k \<mapsto> v)))"

definition limited :: "bool \<Rightarrow> limiter_call" where
  "limited hasLimit = (if hasLimit then CallsLimit else CallsNothing)"

definition RateLimitHandler ::
  "int \<Rightarrow> int \<Rightarrow> bool \<Rightarrow> string \<Rightarrow> int \<Rightarrow> int \<Rightarrow> int \<Rightarrow> limiter \<Rightarrow> limiter_call \<times> limiter" where
  "RateLimitHandler connRate connBurst hasLimit connID tNew tConn tGlobal st =
     (case LoadOrStore (connBuckets st) connID (NewAtomicBucket connRate connBurst tNew) of
        (tb, m) \<Rightarrow>
          (case Allow tConn tb of
             (okConn, tb1) \<Rightarrow>
               if \<not> okConn then (limited hasLimit, st\<lparr>connBuckets := m(connID \<mapsto> tb1)\<rparr>)
               else
                 (case Allow tGlobal (global st) of
                    (okGlobal, g1) \<Rightarrow>
                      if \<not> okGlobal
                      then (limited hasLimit, st\<lparr>connBuckets := m(connID \<mapsto> tb1), global := g1\<rparr>)
                      else (CallsNext, st\<lparr>connBuckets := m(connID \<mapsto> tb1), global := g1\<rparr>))))"

text \<open>The handler run on a sequence of messages, each with its connection id and the
  clock reading of its three calls.\<close>

fun RateLimit_messages ::
  "int \<Rightarrow> int \<Rightarrow> bool \<Rightarrow> limiter \<Rightarrow> (string \<times> int) list \<Rightarrow> limiter_call list \<times> limiter" where
  "RateLimit_messages connRate connBurst hasLimit st [] = ([], st)"
| "RateLimit_messages connRate connBurst hasLimit st ((connID, t) # ms) =
     (case RateLimitHandler connRate connBurst hasLimit connID t t t st of
        (call, st1) \<Rightarrow>
          (case RateLimit_messages connRate connBurst hasLimit st1 ms of
             (calls, st2) \<Rightarrow> (call # calls, st2)))"

section \<open>Framers\<close>

text \<open>
  A \<open>Framer\<close> takes the connection (unused by the bundled framers) and a byte slice and
  returns \<open>(frames, remaining, err)\<close>. A call can also panic, or never return: the
  result of a call is \<open>None\<close> when it does not return, \<open>Some Panicked\<close> when it
  panics, and \<open>Some (Returned frames remaining err)\<close> otherwise. A nil slice is the
  empty list.
\<close>

type_synonym byte = "8 word"
type_synonym bytes = "byte list"

datatype framer_error = UnsupportedLengthFieldSize int

datatype framer_result =
    Returned (frames_of: "bytes list") (remaining_of: bytes) (err_of: "framer_error option")
  | Panicked

type_synonym Framer = "bytes \<Rightarrow> framer_result option"

definition RawFramer :: Framer where
  "RawFramer buf = Some (Returned ([] @ [buf]) [] None)"

text \<open>
  The other three framers are a \<open>for\<close> loop over \<open>buf\<close> and \<open>frames\<close>. One turn
  of the loop body either breaks out of the loop, or returns with an error, or panics on a
  slice expression, or appends one frame and goes on with the rest of the buffer.
  \<open>frame_loop\<close> is the loop on such a body; after a \<open>break\<close> the function returns
  \<open>remaining = buf\<close>, and a \<open>return\<close> inside the loop leaves \<open>remaining\<close> nil.
\<close>

datatype turn = Break | Fail framer_error | Crash | Emit bytes bytes

partial_function (option) frame_loop ::
  "(bytes \<Rightarrow> turn) \<Rightarrow> bytes \<Rightarrow> bytes list \<Rightarrow> framer_result option" where
  "frame_loop body buf frames =
     (case body buf of
        Break \<Rightarrow> Some (Returned frames buf None)
      | Fail e \<Rightarrow> Some (Returned frames [] (Some e))
      | Crash \<Rightarrow> Some Panicked
      | Emit frame rest \<Rightarrow> frame_loop body rest (frames @ [frame]))"

text \<open>
  \<open>bytes.Index(s, sep)\<close> of Go's library: the index of the first instance of \<open>sep\<close>
  in \<open>s\<close>, or \<open>-1\<close> when there is none (0 for an empty \<open>sep\<close>).
\<close>

fun Index :: "'a list \<Rightarrow> 'a list \<Rightarrow> int" where
  "Index [] sep = (if sep = [] then 0 else - 1)"
| "Index (x # xs) sep =
     (if take (length sep) (x # xs) = sep then 0
      else (let i = Index xs sep in if i = - 1 then - 1 else i + 1))"

text \<open>An index that is found leaves room for the separator.\<close>

lemma Index_ge: "- 1 \<le> Index s sep"
  by (induction s) (auto simp: Let_def)

lemma Index_found_length: "Index s sep \<noteq> - 1 \<Longrightarrow> length sep \<le> length s"
proof (induction s)
  case Nil
  then show ?case by (auto split: if_splits)
next
  case (Cons x xs)
  show ?case
  proof (cases "take (length sep) (x # xs) = sep")
    case True
    then have "length (take (length sep) (x # xs)) = length sep" by simp
    then show ?thesis by (simp add: min_def split: if_splits)
  next
    case False
    with Cons.prems have "Index xs sep \<noteq> - 1" by (auto simp: Let_def split: if_splits)
    with Cons.IH show ?thesis by simp
  qed
qed

lemma Index_upper: "Index s sep \<noteq> - 1 \<Longrightarrow> Index s sep + int (length sep) \<le> int (length s)"
proof (induction s)
  case Nil
  then show ?case by (auto split: if_splits)
next
  case (Cons x xs)
  show ?case
  proof (cases "take (length sep) (x # xs) = sep")
    case True
    then have "Index (x # xs) sep = 0" by simp
    moreover have "length sep \<le> length (x # xs)"
      using Cons.prems by (rule Index_found_length)
    ultimately show ?thesis by simp
  next
    case False
    with Cons.prems have n: "Index xs sep \<noteq> - 1" by (auto simp: Let_def split: if_splits)
    with False have "Index (x # xs) sep = Index xs sep + 1" by (simp add: Let_def)
    with Cons.IH [OF n] show ?thesis by simp
  qed
qed

text \<open>
  A slice expression \<open>buf[low:high]\<close> on a slice with \<open>high \<le> len(buf)\<close> panics
  unless \<open>0 \<le> low \<le> high\<close>. In each slice expression of the framers the upper index
  is at most \<open>len(buf)\<close> by the test before it, so the capacity plays no role.
\<close>

definition slice_ok :: "int \<Rightarrow> int \<Rightarrow> bool" where
  "slice_ok low high = (0 \<le> low \<and> low \<le> high)"

definition subslice :: "bytes \<Rightarrow> int \<Rightarrow> int \<Rightarrow> bytes" where
  "subslice buf low high = take (nat (high - low)) (drop (nat low) buf)"

definition DelimiterFramer_body :: "bytes \<Rightarrow> bytes \<Rightarrow> turn" where
  "DelimiterFramer_body delim buf =
     (let idx = Index buf delim in
      if idx = - 1 then Break
      else Emit (subslice buf 0 idx) (drop (nat (idx + int (length delim))) buf))"

definition DelimiterFramer :: "bytes \<Rightarrow> Framer" where
  "DelimiterFramer delim buf = frame_loop (DelimiterFramer_body delim) buf []"

definition LineFramer :: Framer where
  "LineFramer = DelimiterFramer [10]"

definition FixedLengthFramer_body :: "int \<Rightarrow> bytes \<Rightarrow> turn" where
  "FixedLengthFramer_body len buf =
     (if int (length buf) \<ge> len then
        (if \<not> slice_ok 0 len then Crash
         else Emit (subslice buf 0 len) (drop (nat len) buf))
      else Break)"

definition FixedLengthFramer :: "int \<Rightarrow> Framer" where
  "FixedLengthFramer len buf = frame_loop (FixedLengthFramer_body len) buf []"

text \<open>
  \<open>binary.ByteOrder\<close>: the two orders of Go's library, and the unsigned value they
  read from a slice of exactly the field's width (\<open>Uint16\<close>, \<open>Uint32\<close>, \<open>Uint64\<close>;
  for one byte the code reads \<open>fieldBytes[0]\<close>).
\<close>

datatype ByteOrder = BigEndian | LittleEndian

definition be_value :: "bytes \<Rightarrow> int" where
  "be_value bs = foldl (\<lambda>acc b. acc * 256 + uint b) 0 bs"

definition order_Uint :: "ByteOrder \<Rightarrow> bytes \<Rightarrow> int" where
  "order_Uint order bs = (case order of BigEndian \<Rightarrow> be_value bs | LittleEndian \<Rightarrow> be_value (rev bs))"

text \<open>
  One turn of the loop of \<open>LengthFieldFramer\<close>. The parameters are Go \<open>int\<close>s;
  \<open>frameLen\<close> is a \<open>uint64\<close>.
\<close>

definition LengthFieldFramer_body ::
  "int \<Rightarrow> int \<Rightarrow> int \<Rightarrow> int \<Rightarrow> ByteOrder \<Rightarrow> bytes \<Rightarrow> turn" where
  "LengthFieldFramer_body lengthFieldOffset lengthFieldSize lengthAdjustment initialBytesToStrip
       order buf =
     (if int (length buf) < to_int64 (lengthFieldOffset + lengthFieldSize) then Break
      else if \<not> slice_ok lengthFieldOffset (to_int64 (lengthFieldOffset + lengthFieldSize))
      then Crash
      else
        let fieldBytes = subslice buf lengthFieldOffset (to_int64 (lengthFieldOffset + lengthFieldSize))
        in if lengthFieldSize \<noteq> 1 \<and> lengthFieldSize \<noteq> 2 \<and> lengthFieldSize \<noteq> 4
              \<and> lengthFieldSize \<noteq> 8
           then Fail (UnsupportedLengthFieldSize lengthFieldSize)
           else
             let frameLen0 = order_Uint order fieldBytes;
                 frameLen = to_uint64 (frameLen0 + to_uint64 lengthAdjustment);
                 frameEnd = to_int64 (to_int64 (lengthFieldOffset + lengthFieldSize)
                                       + to_int64 frameLen)
             in if int (length buf) < frameEnd then Break
                else if \<not> slice_ok initialBytesToStrip frameEnd then Crash
                else Emit (subslice buf initialBytesToStrip frameEnd) (drop (nat frameEnd) buf))"

definition LengthFieldFramer :: "int \<Rightarrow> int \<Rightarrow> int \<Rightarrow> int \<Rightarrow> ByteOrder \<Rightarrow> Framer" where
  "LengthFieldFramer lengthFieldOffset lengthFieldSize lengthAdjustment initialBytesToStrip order buf =
     frame_loop (LengthFieldFramer_body lengthFieldOffset lengthFieldSize lengthAdjustment
       initialBytesToStrip order) buf []"

text \<open>
  Feeding a framer chunk by chunk with the remainder-carry rule: each call gets the
  previous call's remainder followed by the next chunk; the frames of the calls are
  concatenated. A call that panics, returns an error or does not return ends the run.
\<close>

fun feed :: "Framer \<Rightarrow> bytes \<Rightarrow> bytes list \<Rightarrow> framer_result option" where
  "feed framer carry [] = Some (Returned [] carry None)"
| "feed framer carry (chunk # chunks) =
     (case framer (carry @ chunk) of
        None \<Rightarrow> None
      | Some Panicked \<Rightarrow> Some Panicked
      | Some (Returned fs rest (Some e)) \<Rightarrow> Some (Returned fs rest (Some e))
      | Some (Returned fs rest None) \<Rightarrow>
          (case feed framer rest chunks of
             None \<Rightarrow> None
           | Some Panicked \<Rightarrow> Some Panicked
           | Some (Returned fs2 rest2 e2) \<Rightarrow> Some (Returned (fs @ fs2) rest2 e2)))"

text \<open>
  For the proofs: a loop body is \<open>stable\<close> when a turn that does not break does the
  same on every longer buffer, with the added bytes left in the rest, and never lengthens
  the buffer.
\<close>

definition stable :: "(bytes \<Rightarrow> turn) \<Rightarrow> bool" where
  "stable body = (\<forall>buf ext.
     (case body buf of
        Break \<Rightarrow> True
      | Fail e \<Rightarrow> body (buf @ ext) = Fail e
      | Crash \<Rightarrow> body (buf @ ext) = Crash
      | Emit f rest \<Rightarrow> body (buf @ ext) = Emit f (rest @ ext) \<and> length rest \<le> length buf))"

text \<open>
  The packet end in the words of the specification: offset, plus width, plus the length
  read from the field, plus the adjustment.
\<close>

definition packet_end :: "int \<Rightarrow> int \<Rightarrow> int \<Rightarrow> ByteOrder \<Rightarrow> bytes \<Rightarrow> int" where
  "packet_end off w a ord buf = off + w + order_Uint ord (subslice buf off (off + w)) + a"

text \<open>
  The frames and the remainder in the words of the specification: as long as the field
  and the packet are present, the frame from \<open>strip\<close> to the packet end is emitted and
  the rest is read in the same way; what is left when the field or the packet is not
  present is the remainder. The result is \<open>None\<close> where the specification gives no
  frame: a packet end that is not after the start of the buffer or lies before
  \<open>strip\<close>, a negative \<open>strip\<close>, or a packet end beyond the range of \<open>int\<close>.
\<close>

function packets ::
  "int \<Rightarrow> int \<Rightarrow> int \<Rightarrow> int \<Rightarrow> ByteOrder \<Rightarrow> bytes \<Rightarrow> (bytes list \<times> bytes) option" where
  "packets off w a strip ord buf =
     (if int (length buf) < off + w then Some ([], buf)
      else
        (let e = packet_end off w a ord buf in
         if int (length buf) < e then (if e < 2 ^ 63 then Some ([], buf) else None)
         else if 0 < e \<and> 0 \<le> strip \<and> strip \<le> e then
           (case packets off w a strip ord (drop (nat e) buf) of
              None \<Rightarrow> None
            | Some (fs, rest) \<Rightarrow> Some (subslice buf strip e # fs, rest))
         else None))"
  by pat_completeness auto
termination
  by (relation "measure (\<lambda>(off, w, a, strip, ord, buf). length buf)") auto

declare packets.simps [simp del]

section \<open>Datagram server: the idle threshold of the reaper\<close>

text \<open>
  \<open>Server.Listen\<close>, lines 104 to 108: the value handed to \<open>s.reaper\<close>, from
  \<open>s.cfg.IdleTimeout\<close>.
\<close>

definition Listen_idleTimeout :: "int \<Rightarrow> int" where
  "Listen_idleTimeout cfgIdleTimeout =
     (let idleTimeout = cfgIdleTimeout in
      if idleTimeout > 0 then 5 * Minute else idleTimeout)"

text \<open>\<open>Server.reaper\<close>: the ticker it creates, \<open>time.NewTicker(idle / 2)\<close>.\<close>

definition reaper_ticker :: "int \<Rightarrow> ticker" where
  "reaper_ticker idle = NewTicker (idle sdiv 2)"

text \<open>
  \<open>UDPSession.Reaper\<close>: one sweep over \<open>connMap\<close>, an association list from peer key
  to pseudo-connection; \<open>now\<close> is the instant of \<open>time.Now()\<close>, as its
  \<open>UnixNano()\<close>. The result is the map that is left and the connections closed.
\<close>

definition Reaper :: "int \<Rightarrow> int \<Rightarrow> ('k \<times> conn) list \<Rightarrow> ('k \<times> conn) list \<times> ('k \<times> conn) list" where
  "Reaper now idle connMap =
     (filter (\<lambda>(k, uc). \<not> (Sub (Now now) (LastActive uc) > idle)) connMap,
      filter (\<lambda>(k, uc). Sub (Now now) (LastActive uc) > idle) connMap)"

section \<open>Router\<close>

subsection \<open>String functions of Go's library\<close>

text \<open>
  A Go string is a sequence of bytes, here a list of 8-bit characters. The functions of
  package \<open>strings\<close> read it as UTF-8: \<open>utf8.DecodeRuneInString\<close> gives the code
  point at the start of a string and the number of bytes it takes; a byte that does not
  start a well-formed sequence (a stray continuation byte, a truncated or overlong sequence,
  a surrogate, a value above U+10FFFF) is read as \<open>RuneError\<close> (U+FFFD) of width 1.
\<close>

definition RuneError :: int where
  "RuneError = 0xFFFD"

definition DecodeRuneInString :: "string \<Rightarrow> int \<times> nat" where
  "DecodeRuneInString s =
     (case map of_char s of
        [] \<Rightarrow> (RuneError, 0)
      | s0 # t \<Rightarrow>
          if s0 < 0x80 then (s0, 1)
          else if s0 < 0xC2 \<or> 0xF4 < s0 then (RuneError, 1)
          else
            (let sz = (if s0 < 0xE0 then 2 else if s0 < 0xF0 then 3 else 4);
                 lo = (if s0 = 0xE0 then 0xA0 else if s0 = 0xF0 then 0x90 else 0x80);
                 hi = (if s0 = 0xED then 0x9F else if s0 = 0xF4 then 0x8F else 0xBF)
             in if length s < sz then (RuneError, 1)
                else if t ! 0 < lo \<or> hi < t ! 0 then (RuneError, 1)
                else if sz \<le> 2 then (s0 mod 32 * 64 + t ! 0 mod 64, 2)
                else if t ! 1 < 0x80 \<or> 0xBF < t ! 1 then (RuneError, 1)
                else if sz \<le> 3 then (s0 mod 16 * 4096 + t ! 0 mod 64 * 64 + t ! 1 mod 64, 3)
                else if t ! 2 < 0x80 \<or> 0xBF < t ! 2 then (RuneError, 1)
                else (s0 mod 8 * 262144 + t ! 0 mod 64 * 4096 + t ! 1 mod 64 * 64
                        + t ! 2 mod 64, 4)))"

lemma DecodeRuneInString_size: "s \<noteq> [] \<Longrightarrow> 0 < snd (DecodeRuneInString s)"
  by (cases s) (simp_all add: DecodeRuneInString_def Let_def)

text \<open>
  The code points of a string in order, each with the bytes that encode it (what
  \<open>for _, r := range s\<close> goes through). Decoding from the end of the string
  (\<open>utf8.DecodeLastRuneInString\<close>) cuts the string at the same places.
\<close>

function runes :: "string \<Rightarrow> (int \<times> string) list" where
  "runes s =
     (if s = [] then []
      else (fst (DecodeRuneInString s), take (snd (DecodeRuneInString s)) s)
             # runes (drop (snd (DecodeRuneInString s)) s))"
  by pat_completeness auto
termination
proof (relation "measure length")
  show "wf (measure length)" by simp
next
  fix s :: string
  assume "s \<noteq> []"
  then show "(drop (snd (DecodeRuneInString s)) s, s) \<in> measure length"
    using DecodeRuneInString_size [of s] by simp
qed

declare runes.simps [simp del]

text \<open>
  \<open>unicode.IsSpace\<close>: the code points with the Unicode property White_Space.
  \<open>strings.TrimFunc(s, f)\<close> removes the leading and the trailing code points that
  satisfy \<open>f\<close>; \<open>strings.TrimSpace(s)\<close> is \<open>TrimFunc(s, unicode.IsSpace)\<close>, and
  \<open>strings.Trim(s, cutset)\<close> removes the leading and trailing code points contained
  in \<open>cutset\<close> (\<open>strings.ContainsRune\<close>). \<open>strings.Split(s, sep)\<close> gives the
  substrings between the separators, \<open>s\<close> alone when there is no separator, and one
  string per UTF-8 sequence when \<open>sep\<close> is empty; \<open>strings.Join\<close> puts \<open>sep\<close>
  between the elements.
\<close>

definition IsSpace :: "int \<Rightarrow> bool" where
  "IsSpace r =
     (r \<in> {0x09, 0x0A, 0x0B, 0x0C, 0x0D, 0x20, 0x85, 0xA0, 0x1680, 0x2028, 0x2029, 0x202F,
            0x205F, 0x3000}
      \<or> 0x2000 \<le> r \<and> r \<le> 0x200A)"

definition TrimFunc :: "string \<Rightarrow> (int \<Rightarrow> bool) \<Rightarrow> string" where
  "TrimFunc s f =
     concat (map snd (rev (dropWhile (\<lambda>x. f (fst x))
                        (rev (dropWhile (\<lambda>x. f (fst x)) (runes s))))))"

definition TrimSpace :: "string \<Rightarrow> string" where
  "TrimSpace s = TrimFunc s IsSpace"

definition ContainsRune :: "string \<Rightarrow> int \<Rightarrow> bool" where
  "ContainsRune s r = (r \<in> fst ` set (runes s))"

definition Trim :: "string \<Rightarrow> string \<Rightarrow> string" where
  "Trim s cutset = (if s = [] \<or> cutset = [] then s else TrimFunc s (ContainsRune cutset))"

function Split :: "string \<Rightarrow> string \<Rightarrow> string list" where
  "Split s sep =
     (if sep = [] then map snd (runes s)
      else (let i = Index s sep in
            if i = - 1 then [s]
            else take (nat i) s # Split (drop (nat i + length sep) s) sep))"
  by pat_completeness auto
termination
proof (relation "measure (\<lambda>(s, sep). length s)")
  show "wf (measure (\<lambda>(s, sep). length s))" by simp
next
  fix s sep :: string and i
  assume "sep \<noteq> []" and i: "i = Index s sep" and "i \<noteq> - 1"
  then have "Index s sep + int (length sep) \<le> int (length s)"
    using Index_upper [of s sep] by simp
  moreover have "0 \<le> Index s sep" using Index_ge [of s sep] i \<open>i \<noteq> - 1\<close> by simp
  ultimately show "((drop (nat i + length sep) s, sep), s, sep) \<in> measure (\<lambda>(s, sep). length s)"
    using \<open>sep \<noteq> []\<close> i by (cases sep) auto
qed

fun Join :: "string list \<Rightarrow> string \<Rightarrow> string" where
  "Join [] sep = []"
| "Join [e] sep = e"
| "Join (e # es) sep = e @ sep @ Join es sep"

subsection \<open>Trie\<close>

text \<open>
  A \<open>Node\<close> has its part, an atomic value slot (\<open>None\<close> when nothing was stored) and
  an atomic pointer to the map of its children. The pointer is nil (\<open>None\<close>) or points
  to a variable holding a map; a pointer is modelled by the number of the variable it
  points to, together with the map found there. Variables are numbered in the order in
  which they are created: the counter that goes through \<open>Insert\<close> is the number of the
  next variable.
\<close>

datatype 'v Node =
  Node (part: string) (val: "'v option") (children: "(nat \<times> (string \<Rightarrow> 'v Node option)) option")

definition New_trie :: "'v Node" where
  "New_trie = Node [] None None"

text \<open>\<open>Trie.Query\<close>: the value at the end of the path, with \<open>ok = (v != nil)\<close>; the
  result is \<open>None\<close> when a child is missing or nothing is stored there.\<close>

fun Query :: "'v Node \<Rightarrow> string list \<Rightarrow> 'v option" where
  "Query cur [] = val cur"
| "Query cur (p # ps) =
     (case children cur of
        None \<Rightarrow> None
      | Some ptr \<Rightarrow> (case snd ptr p of None \<Rightarrow> None | Some child \<Rightarrow> Query child ps))"

text \<open>
  \<open>atomic.Pointer.CompareAndSwap(old, new)\<close> on the children pointer of a node: it swaps
  when the stored pointer equals \<open>old\<close>.
\<close>

definition CompareAndSwap ::
  "'v Node \<Rightarrow> nat option \<Rightarrow> nat \<times> (string \<Rightarrow> 'v Node option) \<Rightarrow> bool \<times> 'v Node" where
  "CompareAndSwap n old new =
     (if map_option fst (children n) = old
      then (True, Node (part n) (val n) (Some new))
      else (False, n))"

text \<open>
  \<open>Trie.Insert\<close>, from the node \<open>cur\<close> on: the result is the node with the value
  stored below it, and the counter. For each part the inner loop runs until the child is
  there. In one turn, \<open>children\<close> is a new local variable (number \<open>a\<close> when the pointer
  was not nil) and \<open>newMap\<close> another one; the second compare-and-swap is given
  \<open>&children\<close>, the address of the local variable, as the old pointer. The loop may
  not end: the result is \<open>None\<close> then.
\<close>

partial_function (option) Insert_from ::
  "nat \<Rightarrow> 'v \<Rightarrow> string list \<Rightarrow> 'v Node \<Rightarrow> ('v Node \<times> nat) option" where
  "Insert_from a v parts cur =
     (case parts of
        [] \<Rightarrow> Some (Node (part cur) (Some v) (children cur), a)
      | p # rest \<Rightarrow>
          (case children cur of
             None \<Rightarrow>
               \<comment> \<open>\<open>newMap := make(...)\<close> is variable \<open>a\<close>, \<open>children\<close> is variable \<open>a + 1\<close>\<close>
               (let cas1 = CompareAndSwap cur None (a, Map.empty) in
                if \<not> fst cas1 then Insert_from (a + 2) v parts (snd cas1)
                else
                  \<comment> \<open>\<open>children = newMap\<close>, the empty map, where the child is absent;
                      the next \<open>newMap\<close> is variable \<open>a + 2\<close>\<close>
                  (let cas2 = CompareAndSwap (snd cas1) (Some (a + 1))
                                (a + 2, Map.empty(p \<mapsto> Node p None None)) in
                   if \<not> fst cas2 then Insert_from (a + 3) v parts (snd cas2)
                   else
                     Option.bind (Insert_from (a + 3) v rest (Node p None None))
                       (\<lambda>r. Some (Node (part cur) (val cur)
                                    (Some (a + 2, Map.empty(p \<mapsto> fst r))), snd r))))
           | Some ptr \<Rightarrow>
               \<comment> \<open>\<open>children\<close> is variable \<open>a\<close>\<close>
               (case snd ptr p of
                  Some child \<Rightarrow>
                    Option.bind (Insert_from (a + 1) v rest child)
                      (\<lambda>r. Some (Node (part cur) (val cur)
                                   (Some (fst ptr, (snd ptr)(p \<mapsto> fst r))), snd r))
                | None \<Rightarrow>
                    \<comment> \<open>\<open>newMap\<close> is variable \<open>a + 1\<close>\<close>
                    (let cas = CompareAndSwap cur (Some a)
                                 (a + 1, (snd ptr)(p \<mapsto> Node p None None)) in
                     if \<not> fst cas then Insert_from (a + 2) v parts (snd cas)
                     else
                       Option.bind (Insert_from (a + 2) v rest (Node p None None))
                         (\<lambda>r. Some (Node (part cur) (val cur)
                                      (Some (a + 1, (snd ptr)(p \<mapsto> fst r))), snd r))))))"


declare Insert_from.simps [code]

record 'v Trie =
  root :: "'v Node"
  nextVar :: nat

definition Trie_New :: "'v Trie" where
  "Trie_New = \<lparr>root = New_trie, nextVar = 0\<rparr>"

definition Trie_Query :: "'v Trie \<Rightarrow> string list \<Rightarrow> 'v option" where
  "Trie_Query t parts = Query (root t) parts"

definition Trie_Insert :: "'v Trie \<Rightarrow> 'v \<Rightarrow> string list \<Rightarrow> 'v Trie option" where
  "Trie_Insert t v parts =
     map_option (\<lambda>r. \<lparr>root = fst r, nextVar = snd r\<rparr>) (Insert_from (nextVar t) v parts (root t))"

subsection \<open>LRU cache\<close>

text \<open>
  \<open>lruCache\<close>: the list \<open>ll\<close> of entries, front first; the map from key to list
  element of the source is the lookup in this list. The capacity (\<open>lcapacity\<close>) is
  a Go \<open>int\<close>.
\<close>

record 'v lruCache =
  lcapacity :: int
  ll :: "(string \<times> 'v) list"

definition newLRUCache :: "int \<Rightarrow> 'v lruCache" where
  "newLRUCache cap = \<lparr>lcapacity = cap, ll = []\<rparr>"

definition MoveToFront :: "string \<Rightarrow> 'v \<Rightarrow> (string \<times> 'v) list \<Rightarrow> (string \<times> 'v) list" where
  "MoveToFront key v l = (key, v) # filter (\<lambda>e. fst e \<noteq> key) l"

definition lru_Get :: "'v lruCache \<Rightarrow> string \<Rightarrow> 'v option \<times> 'v lruCache" where
  "lru_Get c key =
     (case map_of (ll c) key of
        Some v \<Rightarrow> (Some v, c\<lparr>ll := MoveToFront key v (ll c)\<rparr>)
      | None \<Rightarrow> (None, c))"

definition removeOldest :: "'v lruCache \<Rightarrow> 'v lruCache" where
  "removeOldest c = (if ll c = [] then c else c\<lparr>ll := butlast (ll c)\<rparr>)"

definition lru_Add :: "'v lruCache \<Rightarrow> string \<Rightarrow> 'v \<Rightarrow> 'v lruCache" where
  "lru_Add c key v =
     (if lcapacity c = 0 then c
      else case map_of (ll c) key of
        Some old \<Rightarrow> c\<lparr>ll := MoveToFront key v (ll c)\<rparr>
      | None \<Rightarrow>
          (let c1 = c\<lparr>ll := (key, v) # ll c\<rparr>
           in if int (length (ll c1)) > lcapacity c1 then removeOldest c1 else c1))"

definition lru_Clear :: "'v lruCache \<Rightarrow> 'v lruCache" where
  "lru_Clear c = c\<lparr>ll := []\<rparr>"

subsection \<open>Handler slices\<close>

text \<open>
  A \<open>[]Handler\<close> is a slice: nil, or a backing array with a length; all slices of the
  router start at the first cell of their array. The store holds the backing arrays, each
  a list of cells as long as its capacity; a cell holds a handler or nil. Array numbers
  are only ever made by \<open>make\<close> and \<open>append\<close>, so a slice always names an array of
  the store. \<open>append\<close> writes into the backing array when the capacity suffices and
  otherwise allocates a new array, whose capacity, at least the length needed, is the
  choice of the Go runtime: \<open>grow\<close> stands for that choice, from the old capacity and
  the length needed, and nothing is assumed about it.
\<close>

datatype slice = NilSlice | Slice (arr: nat) (slen: nat)

record 'h store =
  arrays :: "'h option list list"
  grow :: "nat \<Rightarrow> nat \<Rightarrow> nat"

definition elems :: "'h store \<Rightarrow> slice \<Rightarrow> 'h option list" where
  "elems st s = (case s of NilSlice \<Rightarrow> [] | Slice a n \<Rightarrow> take n (arrays st ! a))"

definition append_slice :: "'h store \<Rightarrow> slice \<Rightarrow> 'h option list \<Rightarrow> slice \<times> 'h store" where
  "append_slice st s xs =
     (if xs = [] then (s, st)
      else case s of
        Slice a n \<Rightarrow>
          if n + length xs \<le> length (arrays st ! a)
          then (Slice a (n + length xs),
                st\<lparr>arrays := (arrays st)[a := take n (arrays st ! a) @ xs
                                  @ drop (n + length xs) (arrays st ! a)]\<rparr>)
          else (Slice (length (arrays st)) (n + length xs),
                st\<lparr>arrays := arrays st @ [take n (arrays st ! a) @ xs
                     @ replicate (grow st (length (arrays st ! a)) (n + length xs)
                                  - (n + length xs)) None]\<rparr>)
      | NilSlice \<Rightarrow>
          (Slice (length (arrays st)) (length xs),
           st\<lparr>arrays := arrays st @ [xs @ replicate (grow st 0 (length xs) - length xs) None]\<rparr>))"

subsection \<open>Read-write mutex\<close>

text \<open>
  A \<open>sync.RWMutex\<close> is free, held by one writer, or held by a number of readers.
  \<open>Lock\<close> waits until the mutex is free and \<open>RLock\<close> until no writer holds it;
  they are not reentrant. One caller at a time is modelled, so a caller that has to wait
  for a mutex waits forever, since only the caller itself could release it: the result is
  \<open>None\<close> then.
\<close>

datatype RWMutex = Unlocked | WriteLocked | ReadLocked nat

definition Lock :: "RWMutex \<Rightarrow> RWMutex option" where
  "Lock m = (if m = Unlocked then Some WriteLocked else None)"

definition Unlock :: "RWMutex \<Rightarrow> RWMutex" where
  "Unlock m = Unlocked"

definition RLock :: "RWMutex \<Rightarrow> RWMutex option" where
  "RLock m =
     (case m of
        Unlocked \<Rightarrow> Some (ReadLocked 1)
      | ReadLocked n \<Rightarrow> Some (ReadLocked (n + 1))
      | WriteLocked \<Rightarrow> None)"

definition RUnlock :: "RWMutex \<Rightarrow> RWMutex" where
  "RUnlock m =
     (case m of
        ReadLocked n \<Rightarrow> if n \<le> 1 then Unlocked else ReadLocked (n - 1)
      | Unlocked \<Rightarrow> Unlocked
      | WriteLocked \<Rightarrow> WriteLocked)"

subsection \<open>Router groups\<close>

text \<open>
  The groups form a tree. A \<open>*RouterGroup\<close> is named by the path from the root group to
  it: the list of the positions in the \<open>children\<close> lists. The parent of a group is
  the group named by the path without its last position.
\<close>

datatype RouterGroup =
  RouterGroup (prefix: string) (mu: RWMutex) (middleware: slice) (cacheValid: bool)
    (cachedHandlers: slice) (gchildren: "RouterGroup list")

type_synonym gref = "nat list"

fun group_at :: "RouterGroup \<Rightarrow> gref \<Rightarrow> RouterGroup option" where
  "group_at g [] = Some g"
| "group_at g (i # is) =
     (if i < length (gchildren g) then group_at (gchildren g ! i) is else None)"

fun update_at :: "(RouterGroup \<Rightarrow> RouterGroup) \<Rightarrow> gref \<Rightarrow> RouterGroup \<Rightarrow> RouterGroup" where
  "update_at f [] g = f g"
| "update_at f (i # is) g =
     (if i < length (gchildren g)
      then RouterGroup (prefix g) (mu g) (middleware g) (cacheValid g) (cachedHandlers g)
             ((gchildren g)[i := update_at f is (gchildren g ! i)])
      else g)"

text \<open>The groups from the root down to the named group.\<close>

fun groups_to :: "RouterGroup \<Rightarrow> gref \<Rightarrow> RouterGroup list" where
  "groups_to g [] = [g]"
| "groups_to g (i # is) =
     g # (if i < length (gchildren g) then groups_to (gchildren g ! i) is else [])"

text \<open>
  \<open>invalidateCache\<close>: the flag is cleared, the children are read under the read lock
  of the group, and each child is invalidated in turn.
\<close>

fun invalidateCache :: "RouterGroup \<Rightarrow> RouterGroup option" where
  "invalidateCache (RouterGroup p m mw v c ch) =
     (case RLock m of
        None \<Rightarrow> None
      | Some m1 \<Rightarrow>
          map_option (RouterGroup p (RUnlock m1) mw False c) (those (map invalidateCache ch)))"

record 'h Route =
  rgroup :: gref
  path :: string
  rmiddleware :: "'h list"

record 'h Router =
  sep :: string
  trie :: "'h Route Trie"
  cache :: "'h Route lruCache option"
  notFound :: "'h list option"
  rootGroup :: RouterGroup
  heap :: "'h store"

text \<open>
  \<open>NewRouter\<close>: the root group has the middleware \<open>make([]Handler, 0)\<close>, an empty
  slice on an array of no cells; \<open>runtimeGrow\<close> is the runtime's choice of capacities.
\<close>

definition NewRouter :: "(nat \<Rightarrow> nat \<Rightarrow> nat) \<Rightarrow> string \<Rightarrow> 'h Router" where
  "NewRouter runtimeGrow sp =
     \<lparr>sep = sp, trie = Trie_New, cache = None, notFound = None,
      rootGroup = RouterGroup [] Unlocked (Slice 0 0) False NilSlice [],
      heap = \<lparr>arrays = [[]], grow = runtimeGrow\<rparr>\<rparr>"

definition SplitPath :: "string \<Rightarrow> string \<Rightarrow> string list" where
  "SplitPath sp p =
     (let p1 = Trim p sp in
      if p1 = [] then []
      else filter (\<lambda>part. part \<noteq> []) (map TrimSpace (Split p1 sp)))"

definition JoinPath :: "string \<Rightarrow> string list \<Rightarrow> string" where
  "JoinPath sp parts =
     (if parts = [] then []
      else Join (filter (\<lambda>p. p \<noteq> []) (map TrimSpace parts)) sp)"

definition Lru :: "int \<Rightarrow> 'h Router \<Rightarrow> 'h Router" where
  \<comment> \<open>for \<open>size <= 0\<close> nil is stored first, and then the new cache all the same\<close>
  "Lru sz r = (let r1 = (if sz \<le> 0 then r\<lparr>cache := None\<rparr> else r)
                 in r1\<lparr>cache := Some (newLRUCache sz)\<rparr>)"

definition NotFound :: "'h list \<Rightarrow> 'h Router \<Rightarrow> 'h Router" where
  "NotFound handlers r = (if handlers = [] then r else r\<lparr>notFound := Some handlers\<rparr>)"

definition Match :: "'h Router \<Rightarrow> string \<Rightarrow> 'h Route option \<times> 'h Router" where
  "Match r p =
     (let hit = (case cache r of
                   None \<Rightarrow> (None, r)
                 | Some c \<Rightarrow> (case lru_Get c p of (v, c1) \<Rightarrow> (v, r\<lparr>cache := Some c1\<rparr>)))
      in case fst hit of
        Some v \<Rightarrow> (Some v, snd hit)
      | None \<Rightarrow>
          (let r1 = snd hit; parts = SplitPath (sep r1) p
           in case Trie_Query (trie r1) parts of
             None \<Rightarrow> (None, r1)
           | Some route \<Rightarrow>
               (Some route,
                case cache r1 of
                  None \<Rightarrow> r1
                | Some c \<Rightarrow> r1\<lparr>cache := Some (lru_Add c p route)\<rparr>)))"

definition Router_insert :: "'h Router \<Rightarrow> 'h Route \<Rightarrow> 'h Router option" where
  "Router_insert r route =
     (case Trie_Insert (trie r) route (SplitPath (sep r) (path route)) of
        None \<Rightarrow> None
      | Some t \<Rightarrow>
          Some (case cache r of
                  None \<Rightarrow> r\<lparr>trie := t\<rparr>
                | Some c \<Rightarrow> r\<lparr>trie := t, cache := Some (lru_Clear c)\<rparr>))"

text \<open>
  The methods of a group, on the router that holds the group tree; \<open>g\<close> names the
  group. A method that has to wait for a mutex does not return (\<open>None\<close>). \<open>Group\<close>
  appends the child under the write lock of the group.
\<close>

definition Group :: "gref \<Rightarrow> string \<Rightarrow> 'h Router \<Rightarrow> (gref \<times> 'h Router) option" where
  "Group g pre r =
     (if pre = [] then Some (g, r)
      else case group_at (rootGroup r) g of
        None \<Rightarrow> Some (g, r)
      | Some grp \<Rightarrow>
          (let child = RouterGroup (JoinPath (sep r) [prefix grp, pre]) Unlocked NilSlice False
                         NilSlice []
           in case Lock (mu grp) of
                None \<Rightarrow> None
              | Some m \<Rightarrow>
                  Some (g @ [length (gchildren grp)],
                        r\<lparr>rootGroup := update_at
                             (\<lambda>x. RouterGroup (prefix x) (Unlock m) (middleware x) (cacheValid x)
                                    (cachedHandlers x) (gchildren x @ [child]))
                             g (rootGroup r)\<rparr>)))"

text \<open>
  \<open>Use\<close>: with at least one handler, the write lock of the group is taken (and held
  until the method returns, by \<open>defer\<close>), the handlers are appended, and
  \<open>invalidateCache\<close> is called on the group, with the lock held.
\<close>

definition Use :: "gref \<Rightarrow> 'h list \<Rightarrow> 'h Router \<Rightarrow> 'h Router option" where
  "Use g handlers r =
     (if handlers = [] then Some r
      else case group_at (rootGroup r) g of
        None \<Rightarrow> Some r
      | Some grp \<Rightarrow>
          (case Lock (mu grp) of
             None \<Rightarrow> None
           | Some m \<Rightarrow>
               (case append_slice (heap r) (middleware grp) (map Some handlers) of
                  (mw, st) \<Rightarrow>
                    (case invalidateCache
                            (RouterGroup (prefix grp) m mw (cacheValid grp) (cachedHandlers grp)
                               (gchildren grp)) of
                       None \<Rightarrow> None
                     | Some grp1 \<Rightarrow>
                         Some (r\<lparr>heap := st,
                                 rootGroup := update_at
                                   (\<lambda>x. RouterGroup (prefix grp1) (Unlock (mu grp1))
                                          (middleware grp1) (cacheValid grp1)
                                          (cachedHandlers grp1) (gchildren grp1))
                                   g (rootGroup r)\<rparr>)))))"

definition Handle :: "gref \<Rightarrow> string \<Rightarrow> 'h list \<Rightarrow> 'h Router \<Rightarrow> 'h Router option" where
  "Handle g p handlers r =
     (if handlers = [] then Some r
      else case group_at (rootGroup r) g of
        None \<Rightarrow> Some r
      | Some grp \<Rightarrow>
          Router_insert r \<lparr>rgroup = g, path = JoinPath (sep r) [prefix grp, p], rmiddleware = handlers\<rparr>)"

text \<open>
  \<open>RouterGroup.Handlers\<close>. With a valid cache the cached slice is copied. Otherwise the
  loop goes from the group up to the root, \<open>combined = append(current.middleware,
  combined...)\<close> under the read lock of \<open>current\<close> (which is released again, so the
  mutex is left as it was), and the result is stored as the cached slice.
\<close>

fun combine :: "'h store \<Rightarrow> RouterGroup list \<Rightarrow> slice \<Rightarrow> (slice \<times> 'h store) option" where
  "combine st [] combined = Some (combined, st)"
| "combine st (current # up) combined =
     (case RLock (mu current) of
        None \<Rightarrow> None
      | Some m \<Rightarrow>
          (case append_slice st (middleware current) (elems st combined) of
             (combined1, st1) \<Rightarrow> combine st1 up combined1))"

definition Handlers :: "gref \<Rightarrow> 'h Router \<Rightarrow> (slice \<times> 'h Router) option" where
  "Handlers g r =
     (case group_at (rootGroup r) g of
        None \<Rightarrow> Some (NilSlice, r)
      | Some grp \<Rightarrow>
          if cacheValid grp then
            (case append_slice (heap r) NilSlice (elems (heap r) (cachedHandlers grp)) of
               (s, st) \<Rightarrow> Some (s, r\<lparr>heap := st\<rparr>))
          else
            (case combine (heap r) (rev (groups_to (rootGroup r) g)) NilSlice of
               None \<Rightarrow> None
             | Some (combined, st) \<Rightarrow>
                 Some (combined,
                       r\<lparr>heap := st,
                         rootGroup := update_at
                           (\<lambda>x. RouterGroup (prefix x) (mu x) (middleware x) True combined
                                  (gchildren x))
                           g (rootGroup r)\<rparr>)))"

text \<open>\<open>Route.Handlers\<close>: \<open>append(r.group.Handlers(), r.middleware...)\<close>, read out.\<close>

definition Route_Handlers ::
  "'h Route \<Rightarrow> 'h Router \<Rightarrow> ('h option list \<times> 'h Router) option" where
  "Route_Handlers route r =
     (case Handlers (rgroup route) r of
        None \<Rightarrow> None
      | Some (s, r1) \<Rightarrow>
          (case append_slice (heap r1) s (map Some (rmiddleware route)) of
             (s2, st) \<Rightarrow> Some (elems st s2, r1\<lparr>heap := st\<rparr>)))"

subsection \<open>Middleware chain and router middleware\<close>





subsection \<open>Sequences of router calls\<close>

text \<open>
  The calls a program can make on a router, and a sequence of them in order. \<open>Serve p\<close>
  is what a message with the resolved path \<open>p\<close> does to the router inside
  \<open>RouterHandler\<close>: \<open>Match\<close> and, on a match, \<open>Route.Handlers\<close>. When a call
  does not return, the sequence does not end (\<open>None\<close>).
\<close>

datatype 'h call =
    CallLru int | CallNotFound "'h list" | CallMatch string | CallGroup gref string
  | CallUse gref "'h list" | CallHandle gref string "'h list" | CallServe string

definition Serve :: "string \<Rightarrow> 'h Router \<Rightarrow> 'h Router option" where
  "Serve p r =
     (case Match r p of
        (Some route, r1) \<Rightarrow> map_option snd (Route_Handlers route r1)
      | (None, r1) \<Rightarrow> Some r1)"

fun do_call :: "'h Router \<Rightarrow> 'h call \<Rightarrow> 'h Router option" where
  "do_call r (CallLru sz) = Some (Lru sz r)"
| "do_call r (CallNotFound hs) = Some (NotFound hs r)"
| "do_call r (CallMatch p) = Some (snd (Match r p))"
| "do_call r (CallGroup g pre) = map_option snd (Group g pre r)"
| "do_call r (CallUse g hs) = Use g hs r"
| "do_call r (CallHandle g p hs) = Handle g p hs r"
| "do_call r (CallServe p) = Serve p r"

fun do_calls :: "'h Router \<Rightarrow> 'h call list \<Rightarrow> 'h Router option" where
  "do_calls r [] = Some r"
| "do_calls r (c # cs) = (case do_call r c of None \<Rightarrow> None | Some r1 \<Rightarrow> do_calls r1 cs)"

text \<open>The entries of the cache, none when there is no cache; and the invariant that
  every cached entry is what the trie gives for its key.\<close>

definition cached :: "'h Router \<Rightarrow> (string \<times> 'h Route) list" where
  "cached r = (case cache r of None \<Rightarrow> [] | Some c \<Rightarrow> ll c)"

definition cache_agrees :: "'h Router \<Rightarrow> bool" where
  "cache_agrees r =
     list_all (\<lambda>e. Trie_Query (trie r) (SplitPath (sep r) (fst e)) = Some (snd e)) (cached r)"

text \<open>
  For the proofs about \<open>Insert\<close>: \<open>has_path cur parts\<close> says that the nodes for
  \<open>parts\<close> are all there below \<open>cur\<close>; \<open>ptrs_below a cur parts\<close> says that the
  children pointers on that path were created before variable \<open>a\<close>; a router is
  \<open>childless\<close> when the root of its trie has no children map.
\<close>

fun has_path :: "'v Node \<Rightarrow> string list \<Rightarrow> bool" where
  "has_path cur [] = True"
| "has_path cur (p # ps) =
     (case children cur of
        None \<Rightarrow> False
      | Some ptr \<Rightarrow> (case snd ptr p of None \<Rightarrow> False | Some child \<Rightarrow> has_path child ps))"

fun ptrs_below :: "nat \<Rightarrow> 'v Node \<Rightarrow> string list \<Rightarrow> bool" where
  "ptrs_below a cur [] = True"
| "ptrs_below a cur (p # ps) =
     (case children cur of
        None \<Rightarrow> True
      | Some ptr \<Rightarrow> fst ptr < a \<and> (case snd ptr p of None \<Rightarrow> True | Some child \<Rightarrow> ptrs_below a child ps))"

definition childless :: "'h Router \<Rightarrow> bool" where
  "childless r = (children (root (trie r)) = None)"



section \<open>Idle detection\<close>

text \<open>
  The instants of the example below: the stamp 1762000000 s read as nanoseconds and as
  seconds, the tick ten seconds later, and the time since each.
\<close>

lemma Unix_stamp_as_nsec:
  "Unix 0 (1762000000 * Second) = \<lparr>secs = 1762000000 + unixToInternal, nsecs = 0\<rparr>"
  by (simp add: Unix_def Second_def to_int64_def unixToInternal_def Let_def signed_divide_int_def)

lemma Unix_stamp_as_sec:
  "Unix (1762000000 * Second) 0 = \<lparr>secs = 1762000000 * Second + unixToInternal, nsecs = 0\<rparr>"
  by (simp add: Unix_def Second_def to_int64_def unixToInternal_def Let_def)

lemma Now_tick:
  "Now (1762000010 * Second) = \<lparr>secs = 1762000010 + unixToInternal, nsecs = 0\<rparr>"
  by (simp add: Now_def Second_def)

lemma Since_stamp_as_nsec:
  "Since (1762000010 * Second) (Unix 0 (1762000000 * Second)) = 10 * Second"
  unfolding Since_def Now_tick Unix_stamp_as_nsec
  by (simp add: Sub_def Add_def addSec_def Equal_def Before_def Second_def unixToInternal_def
      to_int64_def Let_def signed_divide_int_def signed_modulo_int_def)

lemma Since_stamp_as_sec:
  "Since (1762000010 * Second) (Unix (1762000000 * Second) 0) = minDuration"
  unfolding Since_def Now_tick Unix_stamp_as_sec
  by (simp add: Sub_def Add_def addSec_def Equal_def Before_def Second_def unixToInternal_def
      to_int64_def Let_def signed_divide_int_def signed_modulo_int_def minDuration_def)

text \<open>
  C1. The claim: on an idle tick the control loop compares now with the last-activity
  stamp written by \<open>Touch\<close> and dispatches the idle hook when the elapsed time exceeds
  the threshold. The code reads the nanosecond stamp as seconds
  (\<open>time.Unix(c.last.Load(), 0)\<close>, where \<open>LastActive\<close> has
  \<open>time.Unix(0, c.last.Load())\<close>). Here the connection was last touched at
  1762000000 s after the epoch, the idle timeout is one second and the tick comes ten
  seconds later: ten seconds have elapsed, yet no idle hook is dispatched.
\<close>

theorem idleTick_misses_idle_connection:
  "Since (1762000010 * Second) (LastActive (Touch (1762000000 * Second) c)) = 10 * Second
   \<and> 10 * Second > 1 * Second
   \<and> idleTick (1762000010 * Second) (1 * Second) False (Touch (1762000000 * Second) c)
       = (False, Touch (1762000000 * Second) c)"
proof -
  have l: "last (Touch (1762000000 * Second) c) = 1762000000 * Second"
    by (simp add: Touch_def)
  have a: "Since (1762000010 * Second) (LastActive (Touch (1762000000 * Second) c)) = 10 * Second"
    unfolding LastActive_def l by (rule Since_stamp_as_nsec)
  have b: "10 * Second > 1 * Second" by (simp add: Second_def)
  have "\<not> minDuration > 1 * Second" by (simp add: minDuration_def Second_def)
  then have c: "idleTick (1762000010 * Second) (1 * Second) False (Touch (1762000000 * Second) c)
       = (False, Touch (1762000000 * Second) c)"
    unfolding idleTick_def l Let_def Since_stamp_as_sec by simp
  from a b c show ?thesis by simp
qed

section \<open>The activity flag\<close>

lemma active_dispatchHook [simp]: "active (dispatchHook e c) = active c"
  by (simp add: dispatchHook_def)

lemma active_Touch [simp]: "active (Touch t c) = active c"
  by (simp add: Touch_def)

lemma active_idleTick: "active (snd (idleTick now d n c)) = active c"
  by (simp add: idleTick_def Let_def)

lemma active_step: "active c \<Longrightarrow> active (step c e)"
proof (cases e)
  case (EvSend encOk pickDone buf)
  then show "active c \<Longrightarrow> active (step c e)"
    by (simp add: Send_def Let_def)
next
  case (EvWrite w t)
  then show "active c \<Longrightarrow> active (step c e)"
    by (simp add: writeStep_def Let_def split: list.splits)
next
  case (EvIdleTick now d)
  then show "active c \<Longrightarrow> active (step c e)"
    using active_idleTick [of now d "idleNotified c" c]
    by (auto simp: mainIdleTick_def split: prod.splits)
qed (simp_all add: Start_def Close_def Cancel_def Recv_def writeDrain_def writeExit_def
      mainTick_def mainCancel_def mainFinish_def split: list.splits)

lemma active_run: "active c \<Longrightarrow> active (run c evs)"
  unfolding run_def by (induction evs arbitrary: c) (simp_all add: active_step)

lemma startDone_active_step: "startDone c = active c \<Longrightarrow> startDone (step c e) = active (step c e)"
  by (cases e)
     (simp_all add: Start_def Close_def Cancel_def Recv_def Send_def writeStep_def writeDrain_def
       writeExit_def mainTick_def mainIdleTick_def mainCancel_def mainFinish_def idleTick_def
       dispatchHook_def Touch_def IsActive_def Let_def split: list.splits prod.splits)

lemma startDone_active_run: "startDone c = active c \<Longrightarrow> startDone (run c evs) = active (run c evs)"
  unfolding run_def by (induction evs arbitrary: c) (simp_all add: startDone_active_step)

lemma active_after_Start: "active (Start t (run NewConn evs0))"
proof -
  have "startDone (run NewConn evs0) = active (run NewConn evs0)"
    by (rule startDone_active_run) (simp add: NewConn_def)
  then show ?thesis
    by (simp add: Start_def)
qed

text \<open>
  C10. Once \<open>Start\<close> has run on a connection (whatever happened to it before), every
  later state has \<open>IsActive\<close> true, whatever events follow, so \<open>Send\<close> never returns
  the closed error of its first test. In particular, after \<open>Close\<close> has canceled the
  scope, the control loop has closed the queue and the close hook has been dispatched,
  \<open>IsActive\<close> is still true and the closed error of \<open>Send\<close> is the one of the
  canceled-scope branch of the \<open>select\<close>.
\<close>

theorem IsActive_stays_true_after_Start:
  "IsActive (run (Start t (run NewConn evs0)) evs)
   \<and> fst (Send encOk pickDone buf (run (Start t (run NewConn evs0)) evs)) \<noteq> ErrClosedInactive
   \<and> canceled (run (Start t NewConn) [EvClose, EvMainCancel, EvWriteExit, EvMainFinish])
   \<and> closedSignaled (run (Start t NewConn) [EvClose, EvMainCancel, EvWriteExit, EvMainFinish])
   \<and> hooks (run (Start t NewConn) [EvClose, EvMainCancel, EvWriteExit, EvMainFinish])
       = [OnConnect, OnClose]
   \<and> IsActive (run (Start t NewConn) [EvClose, EvMainCancel, EvWriteExit, EvMainFinish])
   \<and> fst (Send True True buf
        (run (Start t NewConn) [EvClose, EvMainCancel, EvWriteExit, EvMainFinish]))
       = ErrClosedScope"
proof -
  have a: "IsActive (run (Start t (run NewConn evs0)) evs)"
    unfolding IsActive_def by (rule active_run) (rule active_after_Start)
  have b: "fst (Send encOk pickDone buf (run (Start t (run NewConn evs0)) evs))
             \<noteq> ErrClosedInactive"
    using a by (simp add: Send_def Let_def)
  have c: "run (Start t NewConn) [EvClose, EvMainCancel, EvWriteExit, EvMainFinish]
      = \<lparr>active = True, last = t, canceled = True, startDone = True, closeDone = True,
         sendChClosed = True, closedSignaled = True, sendQ = [], writerDraining = False,
         writerDone = True, idleNotified = False, hooks = [OnConnect, OnClose]\<rparr>"
    by (simp add: run_def Start_def NewConn_def Close_def Cancel_def mainCancel_def
        writeExit_def mainFinish_def dispatchHook_def Touch_def)
  show ?thesis
    using a b by (simp add: c IsActive_def Send_def)
qed

theorem IsActive_stays_true_after_Start_witness:
  "IsActive (run (Start 5 (run NewConn [EvClose])) [EvParentCancel, EvMainCancel])
   \<and> fst (Send True False 0 (run (Start 5 (run NewConn [EvClose])) [EvParentCancel, EvMainCancel]))
       = PanicSendOnClosedChannel"
proof -
  have "fst (Send True False 0 (run (Start 5 (run NewConn [EvClose])) [EvParentCancel, EvMainCancel]))
       = PanicSendOnClosedChannel"
    by (simp add: run_def Start_def NewConn_def Close_def Cancel_def mainCancel_def
        dispatchHook_def Touch_def Send_def IsActive_def)
  then show ?thesis
    using IsActive_stays_true_after_Start [of 5 "[EvClose]" "[EvParentCancel, EvMainCancel]"]
    by simp
qed

section \<open>Token bucket\<close>

lemma to_int64_id: "- (2 ^ 63) \<le> x \<Longrightarrow> x < 2 ^ 63 \<Longrightarrow> to_int64 x = x"
  by (simp add: to_int64_def)

lemma to_int64_le: "- (2 ^ 63) \<le> x \<Longrightarrow> to_int64 x \<le> x"
proof -
  assume "- (2 ^ 63) \<le> x"
  then have "0 \<le> x + 2 ^ 63" by simp
  then have "(x + 2 ^ 63) mod 2 ^ 64 \<le> x + 2 ^ 63"
    by (rule zmod_le_nonneg_dividend)
  then show ?thesis by (simp add: to_int64_def)
qed

lemma to_int64_lower: "- (2 ^ 63) \<le> to_int64 x"
  by (simp add: to_int64_def)

lemma to_int64_upper: "to_int64 x < 2 ^ 63"
proof -
  have "(x + 2 ^ 63) mod 2 ^ 64 < (2 ^ 64 :: int)"
    by (rule pos_mod_bound) simp
  then show ?thesis by (simp add: to_int64_def)
qed

lemma sdiv_pos: "0 \<le> (a::int) \<Longrightarrow> 0 < b \<Longrightarrow> a sdiv b = a div b"
  by (simp add: signed_divide_int_def sgn_if)

lemma sdiv_nonpos: "(a::int) \<le> 0 \<Longrightarrow> 0 < b \<Longrightarrow> a sdiv b \<le> 0"
  by (simp add: signed_divide_int_def sgn_if div_int_pos_iff)

lemma div_add_le: "0 < (k::int) \<Longrightarrow> x div k + y div k \<le> (x + y) div k"
  by (smt (verit) div_add1_eq pos_imp_zdiv_nonneg_iff pos_mod_sign add_nonneg_nonneg)

lemma refill_pot:
  assumes ok: "bucket_ok T b" and now: "0 \<le> now" "now \<le> T"
  shows "pot T (refill now b) \<le> pot T b \<and> bucket_ok T (refill now b)"
proof -
  let ?L = "lastRefill b" and ?r = "refillRate b"
  let ?e = "now - ?L"
  let ?n = "to_int64 (?e * ?r) sdiv 1000000000"
  from ok have r: "0 \<le> ?r" and L: "0 \<le> ?L" "?L \<le> T" and T: "T < 2 ^ 63"
    and tk: "- (2 ^ 63) \<le> tokens b" "tokens b \<le> capacity b" and cap: "capacity b < 2 ^ 63"
    by (simp_all add: bucket_ok_def)
  have e: "to_int64 ?e = ?e"
    using now L T by (intro to_int64_id) auto
  show ?thesis
  proof (cases "0 < ?e \<and> 0 < ?n")
    case False
    then have "refill now b = b"
      by (auto simp: refill_def Let_def e)
    then show ?thesis using ok by simp
  next
    case True
    then have epos: "0 < ?e" and npos: "0 < ?n" by simp_all
    have prod_nonneg: "0 \<le> ?e * ?r" using epos r by simp
    have wpos: "0 < to_int64 (?e * ?r)"
    proof (rule ccontr)
      assume "\<not> 0 < to_int64 (?e * ?r)"
      then have "to_int64 (?e * ?r) sdiv 1000000000 \<le> 0"
        by (intro sdiv_nonpos) auto
      with npos show False by simp
    qed
    have n_eq: "?n = to_int64 (?e * ?r) div 1000000000"
      using wpos by (intro sdiv_pos) auto
    have "to_int64 (?e * ?r) \<le> ?e * ?r"
      using prod_nonneg by (intro to_int64_le) auto
    then have n_le: "?n \<le> (?e * ?r) div 1000000000"
      unfolding n_eq by (intro zdiv_mono1) auto
    let ?nv = "to_int64 (tokens b + ?n)"
    let ?nv2 = "if ?nv > capacity b then capacity b else ?nv"
    have rf: "refill now b = b\<lparr>tokens := ?nv2, lastRefill := now\<rparr>"
      using epos npos by (simp add: refill_def Let_def e)
    have "?nv \<le> tokens b + ?n"
      using tk npos by (intro to_int64_le) auto
    then have nv2_le: "?nv2 \<le> tokens b + ?n" using tk npos by auto
    have nv2_cap: "?nv2 \<le> capacity b" by auto
    have nv2_low: "- (2 ^ 63) \<le> ?nv2"
      using to_int64_lower [of "tokens b + ?n"] tk by auto
    have "?n + (?r * (T - now)) div 1000000000
            \<le> (?e * ?r) div 1000000000 + (?r * (T - now)) div 1000000000"
      using n_le by simp
    also have "\<dots> \<le> (?e * ?r + ?r * (T - now)) div 1000000000"
      by (intro div_add_le) simp
    also have "?e * ?r + ?r * (T - now) = ?r * (T - ?L)"
      by (simp add: algebra_simps)
    finally have step: "?n + (?r * (T - now)) div 1000000000 \<le> (?r * (T - ?L)) div 1000000000" .
    have "pot T (refill now b) = max 0 ?nv2 + (?r * (T - now)) div 1000000000"
      by (simp add: rf pot_def)
    also have "\<dots> \<le> max 0 (tokens b) + ?n + (?r * (T - now)) div 1000000000"
      using nv2_le npos by auto
    also have "\<dots> \<le> pot T b"
      using step by (simp add: pot_def)
    finally have p: "pot T (refill now b) \<le> pot T b" .
    have "bucket_ok T (refill now b)"
      using ok now nv2_cap nv2_low by (simp add: rf bucket_ok_def)
    with p show ?thesis by simp
  qed
qed

lemma Allow_pot:
  assumes ok: "bucket_ok T b" and now: "0 \<le> now" "now \<le> T"
  shows "(if fst (Allow now b) then 1 else 0) + pot T (snd (Allow now b)) \<le> pot T b
         \<and> bucket_ok T (snd (Allow now b))"
proof -
  let ?b1 = "refill now b"
  from refill_pot [OF ok now] have p: "pot T ?b1 \<le> pot T b" and ok1: "bucket_ok T ?b1"
    by simp_all
  show ?thesis
  proof (cases "tokens ?b1 \<le> 0")
    case True
    then have "Allow now b = (False, ?b1\<lparr>lastAccess := now\<rparr>)"
      by (simp add: Allow_def Let_def)
    then show ?thesis using p ok1 by (simp add: pot_def bucket_ok_def)
  next
    case False
    then have pos: "0 < tokens ?b1" by simp
    have "tokens ?b1 < 2 ^ 63" using ok1 by (simp add: bucket_ok_def)
    then have w: "to_int64 (tokens ?b1 - 1) = tokens ?b1 - 1"
      using pos by (intro to_int64_id) auto
    have "Allow now b = (True, ?b1\<lparr>tokens := tokens ?b1 - 1, lastAccess := now\<rparr>)"
      using pos by (simp add: Allow_def Let_def w)
    then show ?thesis using p ok1 pos by (simp add: pot_def bucket_ok_def)
  qed
qed

lemma allows_pot:
  "bucket_ok T b \<Longrightarrow> \<forall>t\<in>set ts. 0 \<le> t \<and> t \<le> T \<Longrightarrow>
     granted (fst (allows b ts)) + pot T (snd (allows b ts)) \<le> pot T b
     \<and> bucket_ok T (snd (allows b ts))"
proof (induction ts arbitrary: b)
  case Nil
  then show ?case by (simp add: granted_def)
next
  case (Cons t ts)
  obtain ok b1 where A: "Allow t b = (ok, b1)" by (cases "Allow t b")
  obtain oks b2 where B: "allows b1 ts = (oks, b2)" by (cases "allows b1 ts")
  from Cons.prems have t: "0 \<le> t" "t \<le> T" by simp_all
  from Allow_pot [OF Cons.prems(1) t] A
  have s1: "(if ok then 1 else 0) + pot T b1 \<le> pot T b" and ok1: "bucket_ok T b1"
    by simp_all
  from Cons.IH [OF ok1] Cons.prems(2) B
  have s2: "granted oks + pot T b2 \<le> pot T b1" and ok2: "bucket_ok T b2"
    by simp_all
  have "granted (ok # oks) = (if ok then 1 else 0) + granted oks"
    by (simp add: granted_def)
  then show ?case using s1 s2 ok2 by (simp add: A B)
qed

lemma pot_nonneg: "bucket_ok T b \<Longrightarrow> 0 \<le> pot T b"
  by (simp add: pot_def bucket_ok_def pos_imp_zdiv_nonneg_iff)


lemma refill_exact:
  assumes "0 < now - lastRefill b" "now - lastRefill b < 2 ^ 63"
    and "0 \<le> refillRate b" "(now - lastRefill b) * refillRate b < 2 ^ 63"
    and "- (2 ^ 63) \<le> tokens b" "tokens b \<le> capacity b"
    and "tokens b + ((now - lastRefill b) * refillRate b) div 1000000000 < 2 ^ 63"
  shows "tokens (refill now b)
         = min (capacity b) (tokens b + ((now - lastRefill b) * refillRate b) div 1000000000)"
proof -
  let ?e = "now - lastRefill b"
  let ?n = "(?e * refillRate b) div 1000000000"
  have e: "to_int64 ?e = ?e" using assms(1,2) by (intro to_int64_id) auto
  have p0: "0 \<le> ?e * refillRate b" using assms(1,3) by simp
  have p: "to_int64 (?e * refillRate b) = ?e * refillRate b"
    using p0 assms(4) by (intro to_int64_id) auto
  have n: "to_int64 (?e * refillRate b) sdiv 1000000000 = ?n"
    unfolding p using p0 by (intro sdiv_pos) auto
  have n0: "0 \<le> ?n" using p0 by (simp add: pos_imp_zdiv_nonneg_iff)
  have s: "to_int64 (tokens b + ?n) = tokens b + ?n"
    using assms(5,7) n0 by (intro to_int64_id) auto
  show ?thesis
    using assms(1,6) n0 by (auto simp: refill_def Let_def e n s)
qed

lemma Allow_consumes_one:
  assumes "tokens (refill now b) < 2 ^ 63"
  shows "tokens (snd (Allow now b))
         = (if fst (Allow now b) then tokens (refill now b) - 1 else tokens (refill now b))"
proof (cases "tokens (refill now b) \<le> 0")
  case True
  then show ?thesis by (simp add: Allow_def Let_def)
next
  case False
  then have "to_int64 (tokens (refill now b) - 1) = tokens (refill now b) - 1"
    using assms by (intro to_int64_id) auto
  then show ?thesis using False by (simp add: Allow_def Let_def)
qed

lemma allows_from_creation:
  assumes "0 \<le> r" "0 \<le> b" "b < 2 ^ 63" "0 \<le> t0" "0 \<le> d" "t0 + d < 2 ^ 63"
    and ts: "\<forall>t\<in>set ts. t0 \<le> t \<and> t \<le> t0 + d"
  shows "granted (fst (allows (NewAtomicBucket r b t0) ts)) \<le> b + (r * d) div 1000000000"
proof -
  let ?T = "t0 + d" and ?b = "NewAtomicBucket r b t0"
  have ok: "bucket_ok ?T ?b"
    using assms by (simp add: bucket_ok_def NewAtomicBucket_def)
  have "\<forall>t\<in>set ts. 0 \<le> t \<and> t \<le> ?T" using ts assms(4) by auto
  from allows_pot [OF ok this]
  have "granted (fst (allows ?b ts)) + pot ?T (snd (allows ?b ts)) \<le> pot ?T ?b"
    and "bucket_ok ?T (snd (allows ?b ts))" by simp_all
  moreover from this(2) have "0 \<le> pot ?T (snd (allows ?b ts))" by (rule pot_nonneg)
  moreover have "pot ?T ?b = b + (r * d) div 1000000000"
    using assms(2) by (simp add: pot_def NewAtomicBucket_def)
  ultimately show ?thesis by simp
qed

text \<open>
  C5, as stated, fails: the interval may start after the bucket was created. A bucket
  with rate 1 per second and burst 1 is created at instant 0. \<open>Allow\<close> at 0.9 s is
  granted from the burst without a refill, so the last-refill stamp stays 0; \<open>Allow\<close> at
  1.0 s sees one full second elapsed, refills one token and is granted too. Both calls lie
  in an interval of 0.1 s, for which the bound is \<open>1 + floor(1 * 0.1) = 1\<close>.
\<close>

theorem token_bucket_interval_counterexample:
  "(900000000 :: int) \<le> 900000000 \<and> (1000000000 :: int) \<le> 900000000 + 100000000
   \<and> fst (allows (NewAtomicBucket 1 1 0) [900000000, 1000000000]) = [True, True]
   \<and> \<not> granted (fst (allows (NewAtomicBucket 1 1 0) [900000000, 1000000000]))
         \<le> 1 + (1 * 100000000) div 1000000000"
  by (simp add: NewAtomicBucket_def Allow_def refill_def to_int64_def granted_def Let_def
      signed_divide_int_def)

lemma capacity_refill: "capacity (refill now b) = capacity b"
  by (simp add: refill_def Let_def)

lemma refillRate_refill: "refillRate (refill now b) = refillRate b"
  by (simp add: refill_def Let_def)

lemma capacity_Allow: "capacity (snd (Allow now b)) = capacity b"
  by (simp add: Allow_def Let_def capacity_refill)

lemma refillRate_Allow: "refillRate (snd (Allow now b)) = refillRate b"
  by (simp add: Allow_def Let_def refillRate_refill)

lemma lastRefill_Allow: "lastRefill (snd (Allow now b)) = lastRefill (refill now b)"
  by (simp add: Allow_def Let_def)

text \<open>The first call of an interval, in a state whose last refill is not after it.\<close>

lemma first_call_pot:
  assumes ok: "bucket_ok T b" and cap: "0 \<le> capacity b"
    and t: "lastRefill b \<le> t" "t \<le> T"
    and nowrap: "(T - lastRefill b) * refillRate b < 2 ^ 63"
  shows "pot T (refill t b) \<le> capacity b + (refillRate b * (T - t)) div 1000000000 + 1"
proof -
  let ?L = "lastRefill b" and ?r = "refillRate b"
  let ?e = "t - ?L"
  from ok have r: "0 \<le> ?r" and L: "0 \<le> ?L" "?L \<le> T" and T: "T < 2 ^ 63"
    and tk: "- (2 ^ 63) \<le> tokens b" "tokens b \<le> capacity b" and cp: "capacity b < 2 ^ 63"
    by (simp_all add: bucket_ok_def)
  have e: "to_int64 ?e = ?e"
    using t L T by (intro to_int64_id) auto
  have p0: "0 \<le> ?e * ?r" using t r by simp
  have "?e * ?r \<le> (T - ?L) * ?r" using t r by (intro mult_right_mono) auto
  with nowrap have p1: "?e * ?r < 2 ^ 63" by simp
  have p: "to_int64 (?e * ?r) = ?e * ?r"
    using p0 p1 by (intro to_int64_id) auto
  have n: "to_int64 (?e * ?r) sdiv 1000000000 = (?e * ?r) div 1000000000"
    unfolding p using p0 by (intro sdiv_pos) auto
  show ?thesis
  proof (cases "0 < ?e \<and> 0 < (?e * ?r) div 1000000000")
    case True
    let ?n = "(?e * ?r) div 1000000000"
    let ?nv = "to_int64 (tokens b + ?n)"
    let ?nv2 = "if ?nv > capacity b then capacity b else ?nv"
    have rf: "refill t b = b\<lparr>tokens := ?nv2, lastRefill := t\<rparr>"
      using True by (simp add: refill_def Let_def e n)
    have "?nv2 \<le> capacity b" by auto
    then have "max 0 ?nv2 \<le> capacity b" using cap by auto
    then show ?thesis by (simp add: rf pot_def)
  next
    case False
    then have same: "refill t b = b"
      by (auto simp: refill_def Let_def e n)
    have small: "?e * ?r < 1000000000"
    proof (cases "0 < ?e")
      case True
      with False have "(?e * ?r) div 1000000000 \<le> 0" by simp
      then show ?thesis using p0
        by (smt (verit) pos_imp_zdiv_pos_iff)
    next
      case False
      with t have "?e = 0" by simp
      then show ?thesis by simp
    qed
    have "?r * (T - ?L) = ?r * (T - t) + ?e * ?r" by (simp add: algebra_simps)
    also have "\<dots> < ?r * (T - t) + 1000000000" using small by simp
    finally have "(?r * (T - ?L)) div 1000000000 \<le> (?r * (T - t) + 1000000000) div 1000000000"
      by (intro zdiv_mono1) auto
    also have "\<dots> = (?r * (T - t)) div 1000000000 + 1" by simp
    finally have "(?r * (T - ?L)) div 1000000000 \<le> (?r * (T - t)) div 1000000000 + 1" .
    moreover have "max 0 (tokens b) \<le> capacity b" using tk cap by auto
    ultimately show ?thesis unfolding same pot_def by linarith
  qed
qed

lemma allows_any_interval:
  assumes ok: "bucket_ok (s + d) bk" and cap: "0 \<le> capacity bk"
    and s: "lastRefill bk \<le> s" and d: "0 \<le> d"
    and nowrap: "(s + d - lastRefill bk) * refillRate bk < 2 ^ 63"
    and ts: "\<forall>t\<in>set ts. s \<le> t \<and> t \<le> s + d"
  shows "granted (fst (allows bk ts)) \<le> capacity bk + (refillRate bk * d) div 1000000000 + 1"
proof (cases ts)
  case Nil
  have "0 \<le> (refillRate bk * d) div 1000000000"
    using ok d by (simp add: bucket_ok_def pos_imp_zdiv_nonneg_iff)
  then show ?thesis using Nil cap by (simp add: granted_def)
next
  case (Cons t ts')
  let ?T = "s + d"
  from ok have r: "0 \<le> refillRate bk" and L: "0 \<le> lastRefill bk" by (simp_all add: bucket_ok_def)
  from ts Cons have t: "s \<le> t" "t \<le> ?T" and ts': "\<forall>t\<in>set ts'. s \<le> t \<and> t \<le> ?T" by simp_all
  have t0: "0 \<le> t" using t s L by simp
  have all0: "\<forall>t\<in>set ts. 0 \<le> t \<and> t \<le> ?T" using ts s L by auto
  from allows_pot [OF ok all0]
  have g: "granted (fst (allows bk ts)) + pot ?T (snd (allows bk ts)) \<le> pot ?T bk"
    and ok2: "bucket_ok ?T (snd (allows bk ts))" by simp_all
  have pn: "0 \<le> pot ?T (snd (allows bk ts))" using ok2 by (rule pot_nonneg)
  obtain okf b1 where A: "Allow t bk = (okf, b1)" by (cases "Allow t bk")
  obtain oks b2 where B: "allows b1 ts' = (oks, b2)" by (cases "allows b1 ts'")
  from Allow_pot [OF ok t0 t(2)] A
  have ok1: "bucket_ok ?T b1" by simp
  have all1: "\<forall>t\<in>set ts'. 0 \<le> t \<and> t \<le> ?T" using all0 Cons by simp
  from allows_pot [OF ok1 all1] B
  have g2: "granted oks + pot ?T b2 \<le> pot ?T b1" and ok3: "bucket_ok ?T b2" by simp_all
  have pn2: "0 \<le> pot ?T b2" using ok3 by (rule pot_nonneg)
  have rok: "bucket_ok ?T (refill t bk)" using refill_pot [OF ok t0 t(2)] by simp
  have step: "(if okf then 1 else 0) + pot ?T b1 \<le> pot ?T (refill t bk)"
  proof (cases "tokens (refill t bk) \<le> 0")
    case True
    then have "Allow t bk = (False, (refill t bk)\<lparr>lastAccess := t\<rparr>)"
      by (simp add: Allow_def Let_def)
    with A show ?thesis by (auto simp: pot_def)
  next
    case False
    then have pos: "0 < tokens (refill t bk)" by simp
    have "tokens (refill t bk) < 2 ^ 63" using rok by (simp add: bucket_ok_def)
    then have w: "to_int64 (tokens (refill t bk) - 1) = tokens (refill t bk) - 1"
      using pos by (intro to_int64_id) auto
    have "Allow t bk = (True, (refill t bk)\<lparr>tokens := tokens (refill t bk) - 1, lastAccess := t\<rparr>)"
      using pos by (simp add: Allow_def Let_def w)
    with A pos show ?thesis by (auto simp: pot_def)
  qed
  have "pot ?T (refill t bk) \<le> capacity bk + (refillRate bk * (?T - t)) div 1000000000 + 1"
    using ok cap s t nowrap by (intro first_call_pot) auto
  also have "(refillRate bk * (?T - t)) div 1000000000 \<le> (refillRate bk * d) div 1000000000"
    using r t by (intro zdiv_mono1 mult_left_mono) auto
  finally have bound: "pot ?T (refill t bk) \<le> capacity bk + (refillRate bk * d) div 1000000000 + 1"
    by simp
  have "granted (fst (allows bk ts)) = (if okf then 1 else 0) + granted oks"
    using Cons A B by (simp add: granted_def)
  then show ?thesis using step g2 pn2 bound by simp
qed

lemma lastRefill_refill: "lastRefill (refill t b) = lastRefill b \<or> lastRefill (refill t b) = t"
  by (simp add: refill_def Let_def)

lemma lastRefill_allows:
  "lo \<le> lastRefill b \<Longrightarrow> lastRefill b \<le> hi \<Longrightarrow> \<forall>t\<in>set ts. lo \<le> t \<and> t \<le> hi \<Longrightarrow>
   lo \<le> lastRefill (snd (allows b ts)) \<and> lastRefill (snd (allows b ts)) \<le> hi"
proof (induction ts arbitrary: b)
  case Nil
  then show ?case by simp
next
  case (Cons t ts)
  obtain ok b1 where A: "Allow t b = (ok, b1)" by (cases "Allow t b")
  then have "lastRefill b1 = lastRefill (refill t b)"
    using lastRefill_Allow [of t b] by simp
  with lastRefill_refill [of t b] Cons.prems
  have "lo \<le> lastRefill b1" "lastRefill b1 \<le> hi" by auto
  from Cons.IH [OF this] Cons.prems(3) show ?case
    by (auto simp: A split: prod.splits)
qed

lemma capacity_allows: "capacity (snd (allows b ts)) = capacity b"
proof (induction ts arbitrary: b)
  case Nil
  then show ?case by simp
next
  case (Cons t ts)
  obtain ok b1 where A: "Allow t b = (ok, b1)" by (cases "Allow t b")
  then have "capacity b1 = capacity b" using capacity_Allow [of t b] by simp
  with Cons.IH [of b1] show ?case by (auto simp: A split: prod.splits)
qed

lemma refillRate_allows: "refillRate (snd (allows b ts)) = refillRate b"
proof (induction ts arbitrary: b)
  case Nil
  then show ?case by simp
next
  case (Cons t ts)
  obtain ok b1 where A: "Allow t b = (ok, b1)" by (cases "Allow t b")
  then have "refillRate b1 = refillRate b" using refillRate_Allow [of t b] by simp
  with Cons.IH [of b1] show ?case by (auto simp: A split: prod.splits)
qed

lemma allows_later_interval:
  assumes "0 \<le> r" "0 \<le> b" "b < 2 ^ 63" "0 \<le> t0" "t0 \<le> s" "0 \<le> d" "s + d < 2 ^ 63"
    and nowrap: "(s + d - t0) * r < 2 ^ 63"
    and pre: "\<forall>t\<in>set pre. t0 \<le> t \<and> t \<le> s"
    and ts: "\<forall>t\<in>set ts. s \<le> t \<and> t \<le> s + d"
  shows "granted (fst (allows (snd (allows (NewAtomicBucket r b t0) pre)) ts))
         \<le> b + (r * d) div 1000000000 + 1"
proof -
  let ?T = "s + d" and ?b0 = "NewAtomicBucket r b t0"
  let ?bk = "snd (allows ?b0 pre)"
  have ok0: "bucket_ok ?T ?b0"
    using assms by (simp add: bucket_ok_def NewAtomicBucket_def)
  have "\<forall>t\<in>set pre. 0 \<le> t \<and> t \<le> ?T" using pre assms(4,6) by auto
  from allows_pot [OF ok0 this] have ok: "bucket_ok ?T ?bk" by simp
  have L0: "t0 \<le> lastRefill ?b0" "lastRefill ?b0 \<le> s"
    using assms(5) by (simp_all add: NewAtomicBucket_def)
  from lastRefill_allows [OF L0 pre]
  have L: "t0 \<le> lastRefill ?bk" "lastRefill ?bk \<le> s" by simp_all
  have cap: "capacity ?bk = b" and rate: "refillRate ?bk = r"
    by (simp_all add: NewAtomicBucket_def capacity_allows refillRate_allows)
  have "(?T - lastRefill ?bk) * r \<le> (?T - t0) * r"
    using L(1) assms(1) by (intro mult_right_mono) auto
  with nowrap have nw: "(?T - lastRefill ?bk) * refillRate ?bk < 2 ^ 63"
    unfolding rate by linarith
  have cap0: "0 \<le> capacity ?bk" using assms(2) by (simp add: cap)
  have "granted (fst (allows ?bk ts)) \<le> capacity ?bk + (refillRate ?bk * d) div 1000000000 + 1"
    by (rule allows_any_interval [OF ok cap0 L(2) assms(6) nw ts])
  then show ?thesis by (simp only: cap rate)
qed

text \<open>
  C5, amended: one grant more than the claim allows is possible, and no more. A bucket is
  created at instant \<open>t0\<close> with rate \<open>r\<close> and burst \<open>b\<close>, neither negative; it
  is called at instants within \<open>[t0, s]\<close> and then at instants within
  \<open>[s, s + d]\<close> (nanoseconds, within the \<open>int64\<close> range of \<open>UnixNano\<close>, in any
  order within each part; the rate times the time since creation stays in \<open>int64\<close>).
  Of the calls within \<open>[s, s + d]\<close> at most \<open>b + floor(r * d / 1e9) + 1\<close> are
  granted; when the interval starts at the bucket's creation, at most
  \<open>b + floor(r * d / 1e9)\<close>. A refill adds \<open>floor(elapsed * r / 1e9)\<close> tokens,
  capped at the capacity, where the product and the sum stay in the \<open>int64\<close> range; a
  granted \<open>Allow\<close> takes exactly one token and a refused one takes none.
\<close>

theorem token_bucket_bound:
  "(0 \<le> r \<and> 0 \<le> b \<and> b < 2 ^ 63 \<and> 0 \<le> t0 \<and> t0 \<le> s \<and> 0 \<le> d \<and> s + d < 2 ^ 63
      \<and> (s + d - t0) * r < 2 ^ 63
      \<and> (\<forall>t\<in>set pre. t0 \<le> t \<and> t \<le> s) \<and> (\<forall>t\<in>set ts. s \<le> t \<and> t \<le> s + d)
     \<longrightarrow> granted (fst (allows (snd (allows (NewAtomicBucket r b t0) pre)) ts))
         \<le> b + (r * d) div 1000000000 + 1)
   \<and> (0 \<le> r \<and> 0 \<le> b \<and> b < 2 ^ 63 \<and> 0 \<le> t0 \<and> 0 \<le> d \<and> t0 + d < 2 ^ 63
      \<and> (\<forall>t\<in>set ts. t0 \<le> t \<and> t \<le> t0 + d)
     \<longrightarrow> granted (fst (allows (NewAtomicBucket r b t0) ts)) \<le> b + (r * d) div 1000000000)
   \<and> (0 < now - lastRefill bk \<and> now - lastRefill bk < 2 ^ 63
      \<and> 0 \<le> refillRate bk \<and> (now - lastRefill bk) * refillRate bk < 2 ^ 63
      \<and> - (2 ^ 63) \<le> tokens bk \<and> tokens bk \<le> capacity bk
      \<and> tokens bk + ((now - lastRefill bk) * refillRate bk) div 1000000000 < 2 ^ 63
     \<longrightarrow> tokens (refill now bk)
         = min (capacity bk) (tokens bk + ((now - lastRefill bk) * refillRate bk) div 1000000000))
   \<and> (tokens (refill now bk) < 2 ^ 63
     \<longrightarrow> tokens (snd (Allow now bk))
         = (if fst (Allow now bk) then tokens (refill now bk) - 1 else tokens (refill now bk)))"
  using allows_later_interval [of r b t0 s d pre ts] allows_from_creation [of r b t0 d ts]
    refill_exact [of now bk] Allow_consumes_one [of now bk]
  by blast

text \<open>
  The bucket of the counterexample reaches the amended bound: two grants within 0.1 s,
  for \<open>1 + 0 + 1\<close>. The rate-limit scenario of the specification on one bucket (rate
  10, burst 20), created at instant 0: of 25 calls one millisecond apart, all within 100 ms,
  20 are granted, 18 of them among the last 23; a second after the drained bucket's last
  refill, 10 tokens are back and the next call leaves 9.
\<close>

theorem token_bucket_bound_witness:
  "granted (fst (allows (snd (allows (NewAtomicBucket 1 1 0) [])) [900000000, 1000000000])) = 2
   \<and> granted (fst (allows (snd (allows (NewAtomicBucket 1 1 0) [])) [900000000, 1000000000]))
       \<le> 1 + (1 * 100000000) div 1000000000 + 1
   \<and> granted (fst (allows (snd (allows (NewAtomicBucket 10 20 0) [1000000, 2000000])) [3000000, 4000000, 5000000, 6000000, 7000000, 8000000, 9000000, 10000000, 11000000, 12000000, 13000000, 14000000, 15000000, 16000000, 17000000, 18000000, 19000000, 20000000, 21000000, 22000000, 23000000, 24000000, 25000000])) = 18
   \<and> granted (fst (allows (NewAtomicBucket 10 20 0) [1000000, 2000000, 3000000, 4000000, 5000000, 6000000, 7000000, 8000000, 9000000, 10000000, 11000000, 12000000, 13000000, 14000000, 15000000, 16000000, 17000000, 18000000, 19000000, 20000000, 21000000, 22000000, 23000000, 24000000, 25000000])) = 20
   \<and> granted (fst (allows (NewAtomicBucket 10 20 0) [1000000, 2000000, 3000000, 4000000, 5000000, 6000000, 7000000, 8000000, 9000000, 10000000, 11000000, 12000000, 13000000, 14000000, 15000000, 16000000, 17000000, 18000000, 19000000, 20000000, 21000000, 22000000, 23000000, 24000000, 25000000]))
       \<le> 20 + (10 * 100000000) div 1000000000
   \<and> tokens (refill 1025000000
        \<lparr>capacity = 20, tokens = 0, refillRate = 10, lastRefill = 25000000, lastAccess = 25000000\<rparr>)
       = 10
   \<and> tokens (snd (Allow 1025000000
        \<lparr>capacity = 20, tokens = 0, refillRate = 10, lastRefill = 25000000, lastAccess = 25000000\<rparr>))
       = 9"
proof -
  let ?ts = "[1000000, 2000000, 3000000, 4000000, 5000000, 6000000, 7000000, 8000000, 9000000, 10000000, 11000000, 12000000, 13000000, 14000000, 15000000, 16000000, 17000000, 18000000, 19000000, 20000000, 21000000, 22000000, 23000000, 24000000, 25000000] :: int list"
  let ?bk = "\<lparr>capacity = 20, tokens = 0, refillRate = 10, lastRefill = 25000000,
              lastAccess = 25000000\<rparr>"
  have g0: "granted (fst (allows (snd (allows (NewAtomicBucket 1 1 0) [])) [900000000, 1000000000])) = 2"
    by code_simp
  have g1: "granted (fst (allows (snd (allows (NewAtomicBucket 10 20 0) [1000000, 2000000])) [3000000, 4000000, 5000000, 6000000, 7000000, 8000000, 9000000, 10000000, 11000000, 12000000, 13000000, 14000000, 15000000, 16000000, 17000000, 18000000, 19000000, 20000000, 21000000, 22000000, 23000000, 24000000, 25000000])) = 18"
    by code_simp
  have g: "granted (fst (allows (NewAtomicBucket 10 20 0) ?ts)) = 20"
    by code_simp
  have h0: "\<forall>t\<in>set ([] :: int list). 0 \<le> t \<and> t \<le> 900000000"
    by simp
  have h1: "\<forall>t\<in>set [900000000, 1000000000 :: int]. 900000000 \<le> t \<and> t \<le> 900000000 + 100000000"
    by simp
  have h2: "\<forall>t\<in>set ?ts. 0 \<le> t \<and> t \<le> 0 + 100000000"
    by simp
  have r: "tokens (refill 1025000000 ?bk) = 10"
    by (simp add: refill_def to_int64_def Let_def signed_divide_int_def)
  have a: "fst (Allow 1025000000 ?bk)"
    by (simp add: Allow_def refill_def to_int64_def Let_def signed_divide_int_def)
  have b1: "granted (fst (allows (snd (allows (NewAtomicBucket 1 1 0) [])) [900000000, 1000000000]))
       \<le> 1 + (1 * 100000000) div 1000000000 + 1"
    using token_bucket_bound [of 1 1 0 900000000 100000000 "[]" "[900000000, 1000000000]"] h0 h1
    by simp
  have b2: "granted (fst (allows (NewAtomicBucket 10 20 0) ?ts)) \<le> 20 + (10 * 100000000) div 1000000000
     \<and> tokens (refill 1025000000 ?bk) = 10 \<and> tokens (snd (Allow 1025000000 ?bk)) = 9"
    using token_bucket_bound [of 10 20 0 0 100000000 "[]" ?ts 1025000000 ?bk] h2 r a
    by simp
  show ?thesis using g0 g1 g b1 b2 by simp
qed

section \<open>Rate-limit middleware\<close>

lemma limited_not_next: "limited hasLimit \<noteq> CallsNext"
  by (simp add: limited_def)

text \<open>
  C6. On every message the handler takes the connection's bucket from the map, storing a
  fresh one (rate and burst of the connection level) under the connection id when there is
  none, and calls \<open>next\<close> exactly when that bucket and the global bucket both grant a
  token. Otherwise it calls \<open>limit\<close> when there is one, and nothing when there is
  none. The global bucket is only asked when the connection's bucket granted.
\<close>

theorem RateLimitHandler_next_iff_both_grant:
  "(fst (RateLimitHandler connRate connBurst hasLimit connID tNew tConn tGlobal st) = CallsNext)
     = (fst (Allow tConn (case connBuckets st connID of Some b \<Rightarrow> b
                          | None \<Rightarrow> NewAtomicBucket connRate connBurst tNew))
        \<and> fst (Allow tGlobal (global st)))
   \<and> fst (RateLimitHandler connRate connBurst hasLimit connID tNew tConn tGlobal st)
     = (if fst (Allow tConn (case connBuckets st connID of Some b \<Rightarrow> b
                             | None \<Rightarrow> NewAtomicBucket connRate connBurst tNew))
           \<and> fst (Allow tGlobal (global st))
        then CallsNext else if hasLimit then CallsLimit else CallsNothing)
   \<and> connBuckets (snd (RateLimitHandler connRate connBurst hasLimit connID tNew tConn tGlobal st))
     = (connBuckets st)(connID \<mapsto>
          snd (Allow tConn (case connBuckets st connID of Some b \<Rightarrow> b
                            | None \<Rightarrow> NewAtomicBucket connRate connBurst tNew)))
   \<and> global (snd (RateLimitHandler connRate connBurst hasLimit connID tNew tConn tGlobal st))
     = (if fst (Allow tConn (case connBuckets st connID of Some b \<Rightarrow> b
                             | None \<Rightarrow> NewAtomicBucket connRate connBurst tNew))
        then snd (Allow tGlobal (global st)) else global st)"
  by (cases "connBuckets st connID")
     (auto simp: RateLimitHandler_def LoadOrStore_def limited_def split: prod.splits)

text \<open>
  The scenario of the specification: connection level (rate 10, burst 20), global level
  (rate 100, burst 200), 25 messages of one connection within 25 ms: 20 reach \<open>next\<close>
  and 5 the limit handler; a second later, of 12 messages 10 more reach \<open>next\<close>.
\<close>

theorem RateLimitHandler_next_iff_both_grant_witness:
  "fst (RateLimitHandler 10 20 True ''c1'' 5 5 5 (NewRateLimiter 100 200 0)) = CallsNext
   \<and> fst (RateLimit_messages 10 20 True (NewRateLimiter 100 200 0) [(''c1'', 1000000), (''c1'', 2000000), (''c1'', 3000000), (''c1'', 4000000), (''c1'', 5000000), (''c1'', 6000000), (''c1'', 7000000), (''c1'', 8000000), (''c1'', 9000000), (''c1'', 10000000), (''c1'', 11000000), (''c1'', 12000000), (''c1'', 13000000), (''c1'', 14000000), (''c1'', 15000000), (''c1'', 16000000), (''c1'', 17000000), (''c1'', 18000000), (''c1'', 19000000), (''c1'', 20000000), (''c1'', 21000000), (''c1'', 22000000), (''c1'', 23000000), (''c1'', 24000000), (''c1'', 25000000)])
      = replicate 20 CallsNext @ replicate 5 CallsLimit
   \<and> fst (RateLimit_messages 10 20 True
        (snd (RateLimit_messages 10 20 True (NewRateLimiter 100 200 0) [(''c1'', 1000000), (''c1'', 2000000), (''c1'', 3000000), (''c1'', 4000000), (''c1'', 5000000), (''c1'', 6000000), (''c1'', 7000000), (''c1'', 8000000), (''c1'', 9000000), (''c1'', 10000000), (''c1'', 11000000), (''c1'', 12000000), (''c1'', 13000000), (''c1'', 14000000), (''c1'', 15000000), (''c1'', 16000000), (''c1'', 17000000), (''c1'', 18000000), (''c1'', 19000000), (''c1'', 20000000), (''c1'', 21000000), (''c1'', 22000000), (''c1'', 23000000), (''c1'', 24000000), (''c1'', 25000000)])) [(''c1'', 1026000000), (''c1'', 1027000000), (''c1'', 1028000000), (''c1'', 1029000000), (''c1'', 1030000000), (''c1'', 1031000000), (''c1'', 1032000000), (''c1'', 1033000000), (''c1'', 1034000000), (''c1'', 1035000000), (''c1'', 1036000000), (''c1'', 1037000000)])
      = replicate 10 CallsNext @ replicate 2 CallsLimit"
proof -
  have a: "fst (Allow 5 (case connBuckets (NewRateLimiter 100 200 0) ''c1'' of
                 Some b \<Rightarrow> b | None \<Rightarrow> NewAtomicBucket 10 20 5))"
    by code_simp
  have b: "fst (Allow 5 (global (NewRateLimiter 100 200 0)))"
    by code_simp
  have c: "fst (RateLimit_messages 10 20 True (NewRateLimiter 100 200 0) [(''c1'', 1000000), (''c1'', 2000000), (''c1'', 3000000), (''c1'', 4000000), (''c1'', 5000000), (''c1'', 6000000), (''c1'', 7000000), (''c1'', 8000000), (''c1'', 9000000), (''c1'', 10000000), (''c1'', 11000000), (''c1'', 12000000), (''c1'', 13000000), (''c1'', 14000000), (''c1'', 15000000), (''c1'', 16000000), (''c1'', 17000000), (''c1'', 18000000), (''c1'', 19000000), (''c1'', 20000000), (''c1'', 21000000), (''c1'', 22000000), (''c1'', 23000000), (''c1'', 24000000), (''c1'', 25000000)])
      = replicate 20 CallsNext @ replicate 5 CallsLimit"
    by code_simp
  have d: "fst (RateLimit_messages 10 20 True
        (snd (RateLimit_messages 10 20 True (NewRateLimiter 100 200 0) [(''c1'', 1000000), (''c1'', 2000000), (''c1'', 3000000), (''c1'', 4000000), (''c1'', 5000000), (''c1'', 6000000), (''c1'', 7000000), (''c1'', 8000000), (''c1'', 9000000), (''c1'', 10000000), (''c1'', 11000000), (''c1'', 12000000), (''c1'', 13000000), (''c1'', 14000000), (''c1'', 15000000), (''c1'', 16000000), (''c1'', 17000000), (''c1'', 18000000), (''c1'', 19000000), (''c1'', 20000000), (''c1'', 21000000), (''c1'', 22000000), (''c1'', 23000000), (''c1'', 24000000), (''c1'', 25000000)])) [(''c1'', 1026000000), (''c1'', 1027000000), (''c1'', 1028000000), (''c1'', 1029000000), (''c1'', 1030000000), (''c1'', 1031000000), (''c1'', 1032000000), (''c1'', 1033000000), (''c1'', 1034000000), (''c1'', 1035000000), (''c1'', 1036000000), (''c1'', 1037000000)])
      = replicate 10 CallsNext @ replicate 2 CallsLimit"
    by code_simp
  show ?thesis
    using RateLimitHandler_next_iff_both_grant [of 10 20 True "''c1''" 5 5 5
        "NewRateLimiter 100 200 0"] a b c d
    by simp
qed

section \<open>Framers: the loop\<close>


lemma frame_loop_Break: "body buf = Break \<Longrightarrow> frame_loop body buf fr = Some (Returned fr buf None)"
  by (subst frame_loop.simps) simp

lemma frame_loop_Fail: "body buf = Fail e \<Longrightarrow> frame_loop body buf fr = Some (Returned fr [] (Some e))"
  by (subst frame_loop.simps) simp

lemma frame_loop_Crash: "body buf = Crash \<Longrightarrow> frame_loop body buf fr = Some Panicked"
  by (subst frame_loop.simps) simp

lemma frame_loop_Emit: "body buf = Emit f rest \<Longrightarrow> frame_loop body buf fr = frame_loop body rest (fr @ [f])"
  by (subst frame_loop.simps) simp

lemma frame_loop_acc:
  assumes "frame_loop body buf fr = Some res"
  shows "(res = Panicked \<and> (\<forall>fr0. frame_loop body buf fr0 = Some Panicked))
       \<or> (\<exists>fs r e. res = Returned (fr @ fs) r e
            \<and> (\<forall>fr0. frame_loop body buf fr0 = Some (Returned (fr0 @ fs) r e)))"
  using assms
proof (induction body buf fr res rule: frame_loop.raw_induct)
  case (1 loop body buf fr res)
  show ?case
  proof (cases "body buf")
    case Break
    with 1(3) show ?thesis by (auto simp: frame_loop_Break)
  next
    case (Fail e)
    with 1(3) show ?thesis by (auto simp: frame_loop_Fail)
  next
    case Crash
    with 1(3) show ?thesis by (auto simp: frame_loop_Crash)
  next
    case (Emit f rest)
    with 1(2) have a: "loop body rest (fr @ [f]) = Some res" by simp
    from 1(3) have b: "frame_loop body rest (fr @ [f]) = Some res"
      by (simp add: frame_loop_Emit [of body buf, OF Emit])
    from 1(1) [OF a b] show ?thesis
    proof (elim disjE conjE exE)
      assume "res = Panicked" "\<forall>fr0. frame_loop body rest fr0 = Some Panicked"
      then show ?thesis by (simp add: frame_loop_Emit [of body buf, OF Emit])
    next
      fix fs r e
      assume "res = Returned ((fr @ [f]) @ fs) r e"
        "\<forall>fr0. frame_loop body rest fr0 = Some (Returned (fr0 @ fs) r e)"
      then have "res = Returned (fr @ (f # fs)) r e"
        "\<forall>fr0. frame_loop body buf fr0 = Some (Returned (fr0 @ (f # fs)) r e)"
        by (simp_all add: frame_loop_Emit [of body buf, OF Emit])
      then show ?thesis by blast
    qed
  qed
qed (rule assms)


lemma stableD:
  assumes "stable body"
  shows "body buf = Fail e \<Longrightarrow> body (buf @ ext) = Fail e"
    and "body buf = Crash \<Longrightarrow> body (buf @ ext) = Crash"
    and "body buf = Emit f rest \<Longrightarrow> body (buf @ ext) = Emit f (rest @ ext)"
    and "body buf = Emit f rest \<Longrightarrow> length rest \<le> length buf"
proof -
  from assms have *: "case body buf of
        Break \<Rightarrow> True
      | Fail e \<Rightarrow> body (buf @ ext) = Fail e
      | Crash \<Rightarrow> body (buf @ ext) = Crash
      | Emit f rest \<Rightarrow> body (buf @ ext) = Emit f (rest @ ext) \<and> length rest \<le> length buf"
    unfolding stable_def by blast
  show "body buf = Fail e \<Longrightarrow> body (buf @ ext) = Fail e" using * by simp
  show "body buf = Crash \<Longrightarrow> body (buf @ ext) = Crash" using * by simp
  show "body buf = Emit f rest \<Longrightarrow> body (buf @ ext) = Emit f (rest @ ext)" using * by simp
  show "body buf = Emit f rest \<Longrightarrow> length rest \<le> length buf" using * by simp
qed

lemma frame_loop_remainder:
  assumes "frame_loop body buf fr = Some res" and st: "stable body"
  shows "\<forall>fs r. res = Returned fs r None \<longrightarrow> body r = Break \<and> length r \<le> length buf"
  using assms
proof (induction body buf fr res rule: frame_loop.raw_induct)
  case (1 loop body buf fr res)
  show ?case
  proof (cases "body buf")
    case Break
    with 1(3) show ?thesis by (auto simp: frame_loop_Break)
  next
    case (Fail e)
    with 1(3) show ?thesis by (auto simp: frame_loop_Fail)
  next
    case Crash
    with 1(3) show ?thesis by (auto simp: frame_loop_Crash)
  next
    case (Emit f rest)
    with 1(2) have a: "loop body rest (fr @ [f]) = Some res" by simp
    from 1(3) have b: "frame_loop body rest (fr @ [f]) = Some res"
      by (simp add: frame_loop_Emit [of body buf, OF Emit])
    have "length rest \<le> length buf"
      using stableD(4) [OF 1(4) Emit] .
    with 1(1) [OF a b 1(4)] show ?thesis by auto
  qed
qed (rule assms(1))


lemma frame_loop_split:
  assumes "frame_loop body bm fr = Some res" and "stable body"
  shows "\<forall>buf ext fs r. bm = buf @ ext \<longrightarrow> res = Returned fs r None \<longrightarrow>
           (\<exists>fs1 r1. frame_loop body buf fr = Some (Returned fs1 r1 None)
              \<and> frame_loop body (r1 @ ext) fs1 = Some (Returned fs r None))"
  using assms
proof (induction body bm fr res rule: frame_loop.raw_induct)
  case (1 loop body bm fr res)
  show ?case
  proof (intro allI impI)
    fix buf ext fs r
    assume bm: "bm = buf @ ext" and res: "res = Returned fs r None"
    show "\<exists>fs1 r1. frame_loop body buf fr = Some (Returned fs1 r1 None)
              \<and> frame_loop body (r1 @ ext) fs1 = Some (Returned fs r None)"
    proof (cases "body buf")
      case Break
      then have "frame_loop body buf fr = Some (Returned fr buf None)"
        by (rule frame_loop_Break)
      moreover have "frame_loop body (buf @ ext) fr = Some (Returned fs r None)"
        using 1(3) bm res by simp
      ultimately show ?thesis by blast
    next
      case (Fail e)
      then have "body bm = Fail e" using stableD(1) [OF 1(4)] bm by simp
      then have "frame_loop body bm fr = Some (Returned fr [] (Some e))"
        by (rule frame_loop_Fail)
      with 1(3) res show ?thesis by simp
    next
      case Crash
      then have "body bm = Crash" using stableD(2) [OF 1(4)] bm by simp
      then have "frame_loop body bm fr = Some Panicked"
        by (rule frame_loop_Crash)
      with 1(3) res show ?thesis by simp
    next
      case (Emit f rest)
      then have e: "body bm = Emit f (rest @ ext)" using stableD(3) [OF 1(4)] bm by simp
      with 1(2) have a: "loop body (rest @ ext) (fr @ [f]) = Some res" by simp
      from 1(3) have b: "frame_loop body (rest @ ext) (fr @ [f]) = Some res"
        by (simp add: frame_loop_Emit [of body bm, OF e])
      from 1(1) [OF a b 1(4)] res
      obtain fs1 r1 where "frame_loop body rest (fr @ [f]) = Some (Returned fs1 r1 None)"
        and "frame_loop body (r1 @ ext) fs1 = Some (Returned fs r None)"
        by blast
      then show ?thesis
        by (auto simp: frame_loop_Emit [of body buf, OF Emit])
    qed
  qed
qed (rule assms(1))

lemma feed_frame_loop:
  assumes st: "stable body"
  shows "frame_loop body (carry @ concat cs) [] = Some (Returned fs r None) \<Longrightarrow>
         (cs = [] \<Longrightarrow> body carry = Break) \<Longrightarrow>
         feed (\<lambda>b. frame_loop body b []) carry cs = Some (Returned fs r None)"
proof (induction cs arbitrary: carry fs)
  case Nil
  then have "frame_loop body carry [] = Some (Returned [] carry None)"
    by (simp add: frame_loop_Break)
  with Nil(1) show ?case by simp
next
  case (Cons c cs)
  have "frame_loop body ((carry @ c) @ concat cs) [] = Some (Returned fs r None)"
    using Cons.prems(1) by simp
  from frame_loop_split [OF this st]
  obtain fs1 r1 where first: "frame_loop body (carry @ c) [] = Some (Returned fs1 r1 None)"
    and second: "frame_loop body (r1 @ concat cs) fs1 = Some (Returned fs r None)"
    by blast
  from frame_loop_acc [OF second]
  obtain fs2 where fs: "fs = fs1 @ fs2"
    and third: "frame_loop body (r1 @ concat cs) [] = Some (Returned fs2 r None)"
    by (metis append_Nil framer_result.distinct(1) framer_result.inject)
  from frame_loop_remainder [OF first st] have "body r1 = Break" by simp
  with Cons.IH [OF third] have "feed (\<lambda>b. frame_loop body b []) r1 cs = Some (Returned fs2 r None)"
    by simp
  then show ?case using first fs by simp
qed


lemma subslice_append:
  "0 \<le> low \<Longrightarrow> high \<le> int (length buf) \<Longrightarrow> subslice (buf @ ext) low high = subslice buf low high"
  by (auto simp: subslice_def)

lemma drop_append_int:
  "0 \<le> k \<Longrightarrow> k \<le> int (length buf) \<Longrightarrow> drop (nat k) (buf @ ext) = drop (nat k) buf @ ext"
  by auto

lemma stable_FixedLengthFramer_body: "stable (FixedLengthFramer_body len)"
  unfolding stable_def
proof (intro allI)
  fix buf ext
  show "case FixedLengthFramer_body len buf of
        Break \<Rightarrow> True
      | Fail e \<Rightarrow> FixedLengthFramer_body len (buf @ ext) = Fail e
      | Crash \<Rightarrow> FixedLengthFramer_body len (buf @ ext) = Crash
      | Emit f rest \<Rightarrow> FixedLengthFramer_body len (buf @ ext) = Emit f (rest @ ext)
          \<and> length rest \<le> length buf"
    by (auto simp: FixedLengthFramer_body_def slice_ok_def subslice_append)
qed

lemma Index_append: "Index s dl \<noteq> - 1 \<Longrightarrow> Index (s @ ext) dl = Index s dl"
proof (induction s)
  case Nil
  then show ?case by (cases ext) (auto split: if_splits)
next
  case (Cons x xs)
  have len: "length dl \<le> length (x # xs)"
    using Cons.prems by (rule Index_found_length)
  have "take (length dl) ((x # xs) @ ext) = take (length dl) (x # xs)"
    using len by (subst take_append) simp
  then have tk: "take (length dl) (x # (xs @ ext)) = take (length dl) (x # xs)"
    by simp
  show ?case
  proof (cases "take (length dl) (x # xs) = dl")
    case True
    then show ?thesis using tk by simp
  next
    case False
    with Cons.prems have n: "Index xs dl \<noteq> - 1" by (auto simp: Let_def split: if_splits)
    from False tk have "take (length dl) (x # (xs @ ext)) \<noteq> dl" by simp
    then show ?thesis using False Cons.IH [OF n] n by (simp add: Let_def del: take_Cons')
  qed
qed

lemma stable_DelimiterFramer_body: "stable (DelimiterFramer_body delim)"
  unfolding stable_def
proof (intro allI)
  fix buf ext
  show "case DelimiterFramer_body delim buf of
        Break \<Rightarrow> True
      | Fail e \<Rightarrow> DelimiterFramer_body delim (buf @ ext) = Fail e
      | Crash \<Rightarrow> DelimiterFramer_body delim (buf @ ext) = Crash
      | Emit f rest \<Rightarrow> DelimiterFramer_body delim (buf @ ext) = Emit f (rest @ ext)
          \<and> length rest \<le> length buf"
  proof (cases "Index buf delim = - 1")
    case True
    then show ?thesis by (simp add: DelimiterFramer_body_def)
  next
    case False
    have ge: "0 \<le> Index buf delim" using Index_ge [of buf delim] False by simp
    have up: "Index buf delim + int (length delim) \<le> int (length buf)"
      using False by (rule Index_upper)
    have "subslice (buf @ ext) 0 (Index buf delim) = subslice buf 0 (Index buf delim)"
      using ge up by (intro subslice_append) auto
    moreover have "drop (nat (Index buf delim + int (length delim))) (buf @ ext)
        = drop (nat (Index buf delim + int (length delim))) buf @ ext"
      using ge up by (intro drop_append_int) auto
    ultimately show ?thesis
      using False by (simp add: DelimiterFramer_body_def Index_append Let_def)
  qed
qed


lemma stable_LengthFieldFramer_body: "stable (LengthFieldFramer_body off w a strip ord)"
  unfolding stable_def
proof (intro allI)
  fix buf ext
  let ?ow = "to_int64 (off + w)"
  let ?body = "LengthFieldFramer_body off w a strip ord"
  show "case ?body buf of
        Break \<Rightarrow> True
      | Fail e \<Rightarrow> ?body (buf @ ext) = Fail e
      | Crash \<Rightarrow> ?body (buf @ ext) = Crash
      | Emit f rest \<Rightarrow> ?body (buf @ ext) = Emit f (rest @ ext) \<and> length rest \<le> length buf"
  proof (cases "int (length buf) < ?ow")
    case True
    then show ?thesis by (simp add: LengthFieldFramer_body_def)
  next
    case False
    then have long: "\<not> int (length (buf @ ext)) < ?ow" by simp
    show ?thesis
    proof (cases "slice_ok off ?ow")
      case False
      then show ?thesis using \<open>\<not> int (length buf) < ?ow\<close> long
        by (simp add: LengthFieldFramer_body_def)
    next
      case True
      then have "0 \<le> off" by (simp add: slice_ok_def)
      then have fb: "subslice (buf @ ext) off ?ow = subslice buf off ?ow"
        using \<open>\<not> int (length buf) < ?ow\<close> by (intro subslice_append) auto
      let ?fe = "to_int64 (?ow + to_int64 (to_uint64 (order_Uint ord (subslice buf off ?ow) + to_uint64 a)))"
      show ?thesis
      proof (cases "w \<noteq> 1 \<and> w \<noteq> 2 \<and> w \<noteq> 4 \<and> w \<noteq> 8")
        case True
        then show ?thesis using \<open>\<not> int (length buf) < ?ow\<close> long \<open>slice_ok off ?ow\<close>
          by (simp add: LengthFieldFramer_body_def Let_def)
      next
        case False
        note w = this
        show ?thesis
        proof (cases "int (length buf) < ?fe")
          case True
          then show ?thesis using \<open>\<not> int (length buf) < ?ow\<close> \<open>slice_ok off ?ow\<close> w
            by (simp add: LengthFieldFramer_body_def Let_def)
        next
          case False
          then have long2: "\<not> int (length (buf @ ext)) < ?fe" by simp
          show ?thesis
          proof (cases "slice_ok strip ?fe")
            case False
            then show ?thesis
              using \<open>\<not> int (length buf) < ?ow\<close> long \<open>slice_ok off ?ow\<close> w
                \<open>\<not> int (length buf) < ?fe\<close> long2 fb
              by (simp add: LengthFieldFramer_body_def Let_def)
          next
            case True
            then have s0: "0 \<le> strip" and fe0: "0 \<le> ?fe" by (simp_all add: slice_ok_def)
            have f: "subslice (buf @ ext) strip ?fe = subslice buf strip ?fe"
              using s0 \<open>\<not> int (length buf) < ?fe\<close> by (intro subslice_append) auto
            have d: "drop (nat ?fe) (buf @ ext) = drop (nat ?fe) buf @ ext"
              using fe0 \<open>\<not> int (length buf) < ?fe\<close> by (intro drop_append_int) auto
            have b1: "?body buf = Emit (subslice buf strip ?fe) (drop (nat ?fe) buf)"
              using \<open>\<not> int (length buf) < ?ow\<close> \<open>slice_ok off ?ow\<close> w
                \<open>\<not> int (length buf) < ?fe\<close> True
              by (simp add: LengthFieldFramer_body_def Let_def)
            have b2: "?body (buf @ ext) = Emit (subslice buf strip ?fe) (drop (nat ?fe) buf @ ext)"
              using long \<open>slice_ok off ?ow\<close> w long2 True
              unfolding LengthFieldFramer_body_def Let_def fb f d
              by simp
            show ?thesis using b1 b2 by simp
          qed
        qed
      qed
    qed
  qed
qed

lemma FixedLengthFramer_returns:
  assumes "0 < len"
  shows "\<exists>fs r. frame_loop (FixedLengthFramer_body len) buf fr = Some (Returned fs r None)"
proof (induction "length buf" arbitrary: buf fr rule: less_induct)
  case less
  show ?case
  proof (cases "int (length buf) \<ge> len")
    case False
    then have "FixedLengthFramer_body len buf = Break"
      by (simp add: FixedLengthFramer_body_def)
    then show ?thesis by (simp add: frame_loop_Break)
  next
    case True
    then have e: "FixedLengthFramer_body len buf = Emit (subslice buf 0 len) (drop (nat len) buf)"
      using assms by (simp add: FixedLengthFramer_body_def slice_ok_def)
    have "length (drop (nat len) buf) < length buf"
      using True assms by simp
    from less [OF this] show ?thesis
      by (simp add: frame_loop_Emit [of "FixedLengthFramer_body len" buf, OF e])
  qed
qed

lemma DelimiterFramer_returns:
  assumes "delim \<noteq> []"
  shows "\<exists>fs r. frame_loop (DelimiterFramer_body delim) buf fr = Some (Returned fs r None)"
proof (induction "length buf" arbitrary: buf fr rule: less_induct)
  case less
  show ?case
  proof (cases "Index buf delim = - 1")
    case True
    then have "DelimiterFramer_body delim buf = Break"
      by (simp add: DelimiterFramer_body_def)
    then show ?thesis by (simp add: frame_loop_Break)
  next
    case False
    then have e: "DelimiterFramer_body delim buf
        = Emit (subslice buf 0 (Index buf delim)) (drop (nat (Index buf delim + int (length delim))) buf)"
      by (simp add: DelimiterFramer_body_def Let_def)
    have "0 \<le> Index buf delim" using Index_ge [of buf delim] False by simp
    moreover have "Index buf delim + int (length delim) \<le> int (length buf)"
      using False by (rule Index_upper)
    ultimately have "length (drop (nat (Index buf delim + int (length delim))) buf) < length buf"
      using assms by (cases delim) auto
    from less [OF this] show ?thesis
      by (simp add: frame_loop_Emit [of "DelimiterFramer_body delim" buf, OF e])
  qed
qed


lemma frame_loop_stuck:
  assumes "body buf = Emit f buf"
  shows "frame_loop body buf fr = None"
proof (rule ccontr)
  assume "frame_loop body buf fr \<noteq> None"
  then obtain res where run: "frame_loop body buf fr = Some res" by auto
  have "\<forall>f. body buf \<noteq> Emit f buf"
    using run
  proof (induction body buf fr res rule: frame_loop.raw_induct)
    case (1 loop body buf fr res)
    show ?case
    proof (cases "body buf")
      case (Emit f rest)
      show ?thesis
      proof (cases "rest = buf")
        case True
        with Emit have e: "body buf = Emit f buf" by simp
        with 1(2) have a: "loop body buf (fr @ [f]) = Some res" by simp
        have b: "frame_loop body buf (fr @ [f]) = Some res"
          by (rule trans [OF frame_loop_Emit [of body buf f buf fr, OF e, symmetric] 1(3)])
        have "\<forall>f. body buf \<noteq> Emit f buf" by (rule 1(1) [OF a b])
        with e show ?thesis by blast
      next
        case False
        with Emit show ?thesis by simp
      qed
    qed simp_all
  qed (rule run)
  with assms show False by simp
qed


lemma to_int64_mod: "to_int64 x mod 2 ^ 64 = x mod 2 ^ 64"
proof -
  have "((x + 2 ^ 63) mod 2 ^ 64 - 2 ^ 63) mod 2 ^ 64 = (x + 2 ^ 63 - 2 ^ 63) mod 2 ^ 64"
    by (rule mod_diff_left_eq)
  then show ?thesis by (simp add: to_int64_def)
qed

lemma to_int64_cong: "x mod 2 ^ 64 = y mod 2 ^ 64 \<Longrightarrow> to_int64 x = to_int64 y"
proof -
  assume a: "x mod 2 ^ 64 = y mod 2 ^ 64"
  have "(x + 2 ^ 63) mod 2 ^ 64 = (x mod 2 ^ 64 + 2 ^ 63) mod 2 ^ 64"
    by (rule mod_add_left_eq [symmetric])
  also have "\<dots> = (y mod 2 ^ 64 + 2 ^ 63) mod 2 ^ 64"
    by (simp only: a)
  also have "\<dots> = (y + 2 ^ 63) mod 2 ^ 64"
    by (rule mod_add_left_eq)
  finally show ?thesis by (simp only: to_int64_def)
qed

lemma frameEnd_exact:
  assumes "- (2 ^ 63) \<le> x + y + z" "x + y + z < 2 ^ 63"
  shows "to_int64 (to_int64 x + to_int64 (to_uint64 (y + to_uint64 z))) = x + y + z"
proof -
  have "(to_int64 x + to_int64 (to_uint64 (y + to_uint64 z))) mod 2 ^ 64
      = (to_int64 x mod 2 ^ 64 + to_int64 (to_uint64 (y + to_uint64 z)) mod 2 ^ 64) mod 2 ^ 64"
    by (rule mod_add_eq [symmetric])
  also have "to_int64 x mod 2 ^ 64 = x mod 2 ^ 64" by (rule to_int64_mod)
  also have "to_int64 (to_uint64 (y + to_uint64 z)) mod 2 ^ 64 = (y + z) mod 2 ^ 64"
    unfolding to_int64_mod to_uint64_def by (simp only: mod_mod_trivial mod_add_right_eq)
  also have "(x mod 2 ^ 64 + (y + z) mod 2 ^ 64) mod 2 ^ 64 = (x + (y + z)) mod 2 ^ 64"
    by (rule mod_add_eq)
  finally have "to_int64 (to_int64 x + to_int64 (to_uint64 (y + to_uint64 z))) = to_int64 (x + (y + z))"
    by (rule to_int64_cong)
  then show ?thesis using assms by (simp add: to_int64_id add.assoc)
qed


section \<open>Length-field framer\<close>

lemma LengthFieldFramer_body_emit:
  assumes w: "w = 1 \<or> w = 2 \<or> w = 4 \<or> w = 8"
    and off: "0 \<le> off" "off + w \<le> int (length buf)" and len: "int (length buf) < 2 ^ 63"
    and strip: "0 \<le> strip" "strip \<le> packet_end off w a ord buf"
    and present: "packet_end off w a ord buf \<le> int (length buf)"
  shows "LengthFieldFramer_body off w a strip ord buf
         = Emit (subslice buf strip (packet_end off w a ord buf))
                (drop (nat (packet_end off w a ord buf)) buf)"
proof -
  let ?E = "packet_end off w a ord buf"
  have ow: "to_int64 (off + w) = off + w"
    using w off len by (intro to_int64_id) auto
  have "- (2 ^ 63) \<le> (off + w) + order_Uint ord (subslice buf off (off + w)) + a"
    and "(off + w) + order_Uint ord (subslice buf off (off + w)) + a < 2 ^ 63"
    using strip present len by (simp_all add: packet_end_def)
  from frameEnd_exact [OF this]
  have fe: "to_int64 (to_int64 (off + w)
      + to_int64 (to_uint64 (order_Uint ord (subslice buf off (off + w)) + to_uint64 a))) = ?E"
    by (simp add: packet_end_def)
  then have fe2: "to_int64 (off + w
      + to_int64 (to_uint64 (order_Uint ord (subslice buf off (off + w)) + to_uint64 a))) = ?E"
    by (simp only: ow)
  have ok1: "slice_ok off (off + w)" using w off by (auto simp: slice_ok_def)
  have ok2: "slice_ok strip ?E" using strip by (simp add: slice_ok_def)
  show ?thesis
    unfolding LengthFieldFramer_body_def Let_def ow fe2
    using w off present ok1 ok2 by auto
qed

lemma LengthFieldFramer_body_short_field:
  assumes "int (length buf) < off + w" "- (2 ^ 63) \<le> off + w" "off + w < 2 ^ 63"
  shows "LengthFieldFramer_body off w a strip ord buf = Break"
proof -
  have "to_int64 (off + w) = off + w"
    using assms by (intro to_int64_id) auto
  then show ?thesis using assms(1) by (simp add: LengthFieldFramer_body_def)
qed

lemma LengthFieldFramer_body_short_frame:
  assumes w: "w = 1 \<or> w = 2 \<or> w = 4 \<or> w = 8"
    and off: "0 \<le> off" "off + w \<le> int (length buf)"
    and short: "int (length buf) < packet_end off w a ord buf"
    and rng: "packet_end off w a ord buf < 2 ^ 63"
  shows "LengthFieldFramer_body off w a strip ord buf = Break"
proof -
  let ?E = "packet_end off w a ord buf"
  have ow: "to_int64 (off + w) = off + w"
    using w off short rng by (intro to_int64_id) auto
  have "- (2 ^ 63) \<le> (off + w) + order_Uint ord (subslice buf off (off + w)) + a"
    and "(off + w) + order_Uint ord (subslice buf off (off + w)) + a < 2 ^ 63"
    using short rng by (simp_all add: packet_end_def)
  from frameEnd_exact [OF this]
  have fe: "to_int64 (to_int64 (off + w)
      + to_int64 (to_uint64 (order_Uint ord (subslice buf off (off + w)) + to_uint64 a))) = ?E"
    by (simp add: packet_end_def)
  then have fe2: "to_int64 (off + w
      + to_int64 (to_uint64 (order_Uint ord (subslice buf off (off + w)) + to_uint64 a))) = ?E"
    by (simp only: ow)
  have ok1: "slice_ok off (off + w)" using w off by (auto simp: slice_ok_def)
  show ?thesis
    unfolding LengthFieldFramer_body_def Let_def ow fe2
    using w off short ok1 by auto
qed

lemma LengthFieldFramer_body_unsupported:
  assumes "w \<noteq> 1" "w \<noteq> 2" "w \<noteq> 4" "w \<noteq> 8"
    and "0 \<le> off" "0 \<le> w" "off + w \<le> int (length buf)" "int (length buf) < 2 ^ 63"
  shows "LengthFieldFramer_body off w a strip ord buf = Fail (UnsupportedLengthFieldSize w)"
proof -
  have "to_int64 (off + w) = off + w"
    using assms by (intro to_int64_id) auto
  then show ?thesis
    using assms by (simp add: LengthFieldFramer_body_def slice_ok_def Let_def)
qed

text \<open>
  C4, as stated, fails in two places. An unsupported width is only reported once the
  field is present: with width 3 and a buffer of two bytes the framer returns no error.
  And when the packet end lies before \<open>initialBytesToStrip\<close> no frame is emitted: with
  (0, 4, -4, 4, big-endian) and the buffer 00 00 00 00 the packet end is 0, that many bytes
  are present, and the call panics.
\<close>

theorem LengthFieldFramer_claim_counterexample:
  "LengthFieldFramer 0 3 0 0 BigEndian [1, 2] = Some (Returned [] [1, 2] None)
   \<and> packet_end 0 4 (- 4) BigEndian [0, 0, 0, 0] = 0
   \<and> LengthFieldFramer 0 4 (- 4) 4 BigEndian [0, 0, 0, 0] = Some Panicked"
  by (simp add: LengthFieldFramer_def frame_loop.simps LengthFieldFramer_body_def slice_ok_def
      subslice_def to_int64_def to_uint64_def order_Uint_def be_value_def packet_end_def Let_def)
lemma packets_framer:
  assumes w: "w = 1 \<or> w = 2 \<or> w = 4 \<or> w = 8" and off: "0 \<le> off" and ow: "off + w < 2 ^ 63"
  shows "int (length buf) < 2 ^ 63 \<Longrightarrow> packets off w a strip ord buf = Some (fs, rest) \<Longrightarrow>
         frame_loop (LengthFieldFramer_body off w a strip ord) buf fr = Some (Returned (fr @ fs) rest None)
         \<and> length rest \<le> length buf \<and> (fs \<noteq> [] \<longrightarrow> length rest < length buf)"
proof (induction "length buf" arbitrary: buf fs fr rule: less_induct)
  case less
  let ?body = "LengthFieldFramer_body off w a strip ord"
  let ?E = "packet_end off w a ord buf"
  show ?case
  proof (cases "int (length buf) < off + w")
    case True
    then have "packets off w a strip ord buf = Some ([], buf)"
      by (subst packets.simps) simp
    with less.prems have fs: "fs = []" "rest = buf" by simp_all
    have "- (2 ^ 63) \<le> off + w" using w off by auto
    moreover note ow
    ultimately have "?body buf = Break"
      using True by (intro LengthFieldFramer_body_short_field) simp_all
    then show ?thesis using fs by (simp add: frame_loop_Break)
  next
    case False
    then have present: "off + w \<le> int (length buf)" by simp
    show ?thesis
    proof (cases "int (length buf) < ?E")
      case True
      with False less.prems(2) have e: "?E < 2 ^ 63" and fs: "fs = []" "rest = buf"
        by (subst (asm) packets.simps; simp add: Let_def split: if_splits)+
      have "?body buf = Break"
        using w off present True e by (intro LengthFieldFramer_body_short_frame) simp_all
      then show ?thesis using fs by (simp add: frame_loop_Break)
    next
      case here: False
      with False less.prems(2) have ok: "0 < ?E" "0 \<le> strip" "strip \<le> ?E"
        by (subst (asm) packets.simps; simp add: Let_def split: if_splits)+
      from here False less.prems(2) ok obtain fs1 where
        rec: "packets off w a strip ord (drop (nat ?E) buf) = Some (fs1, rest)"
        and fs: "fs = subslice buf strip ?E # fs1"
        by (subst (asm) packets.simps) (auto simp: Let_def split: option.splits)
      have emit: "?body buf = Emit (subslice buf strip ?E) (drop (nat ?E) buf)"
        using w off present less.prems(1) ok here
        by (intro LengthFieldFramer_body_emit) simp_all
      have shorter: "length (drop (nat ?E) buf) < length buf"
        using ok(1) here by simp
      then have "int (length (drop (nat ?E) buf)) < 2 ^ 63" using less.prems(1) by simp
      from less.hyps [OF shorter this rec, of "fr @ [subslice buf strip ?E]"]
      have "frame_loop ?body (drop (nat ?E) buf) (fr @ [subslice buf strip ?E])
              = Some (Returned ((fr @ [subslice buf strip ?E]) @ fs1) rest None)"
        and "length rest \<le> length (drop (nat ?E) buf)" by simp_all
      then show ?thesis using shorter fs
        by (simp add: frame_loop_Emit [of ?body buf, OF emit])
    qed
  qed
qed

text \<open>
  C4, amended. The width is supported, the field offset is not negative, and the buffer
  is one that the specification splits: each packet that is present ends after the start
  of the buffer and not before \<open>strip\<close>, which is not negative (and the sums stay in
  the range of \<open>int\<close>). Then the call returns, with no error, the frames from
  \<open>strip\<close> to the packet end of the successive packets, and as remainder the bytes
  from the first place where the field or the packet is not present: fewer bytes than the
  buffer when a frame was emitted. When the field is not yet present, whatever the width,
  the framer returns no frame, no error, and the buffer as remainder. For any other width
  that is not negative, it returns an error as soon as the field is present. The example
  of the specification gives one frame and keeps six bytes.
\<close>

theorem LengthFieldFramer_packets:
  "((w = 1 \<or> w = 2 \<or> w = 4 \<or> w = 8) \<and> 0 \<le> off \<and> off + w < 2 ^ 63
      \<and> int (length buf) < 2 ^ 63 \<and> packets off w a strip ord buf = Some (fs, rest)
     \<longrightarrow> LengthFieldFramer off w a strip ord buf = Some (Returned fs rest None)
         \<and> length rest \<le> length buf \<and> (fs \<noteq> [] \<longrightarrow> length rest < length buf))
   \<and> (int (length buf) < off + w \<and> - (2 ^ 63) \<le> off + w \<and> off + w < 2 ^ 63
     \<longrightarrow> LengthFieldFramer off w a strip ord buf = Some (Returned [] buf None))
   \<and> (w \<noteq> 1 \<and> w \<noteq> 2 \<and> w \<noteq> 4 \<and> w \<noteq> 8 \<and> 0 \<le> off \<and> 0 \<le> w
      \<and> off + w \<le> int (length buf) \<and> int (length buf) < 2 ^ 63
     \<longrightarrow> LengthFieldFramer off w a strip ord buf
         = Some (Returned [] [] (Some (UnsupportedLengthFieldSize w))))
   \<and> LengthFieldFramer 0 4 0 4 BigEndian [0, 0, 0, 5, 72, 101, 108, 108, 111, 0, 0, 0, 3, 65, 66]
       = Some (Returned [[72, 101, 108, 108, 111]] [0, 0, 0, 3, 65, 66] None)"
proof -
  have 1: "LengthFieldFramer off w a strip ord buf = Some (Returned fs rest None)
         \<and> length rest \<le> length buf \<and> (fs \<noteq> [] \<longrightarrow> length rest < length buf)"
    if h: "(w = 1 \<or> w = 2 \<or> w = 4 \<or> w = 8) \<and> 0 \<le> off \<and> off + w < 2 ^ 63
      \<and> int (length buf) < 2 ^ 63 \<and> packets off w a strip ord buf = Some (fs, rest)"
  proof -
    from h have "frame_loop (LengthFieldFramer_body off w a strip ord) buf []
        = Some (Returned ([] @ fs) rest None)
      \<and> length rest \<le> length buf \<and> (fs \<noteq> [] \<longrightarrow> length rest < length buf)"
      by (intro packets_framer) simp_all
    then show ?thesis by (simp add: LengthFieldFramer_def)
  qed
  have 2: "LengthFieldFramer off w a strip ord buf = Some (Returned [] buf None)"
    if "int (length buf) < off + w \<and> - (2 ^ 63) \<le> off + w \<and> off + w < 2 ^ 63"
  proof -
    from that have "LengthFieldFramer_body off w a strip ord buf = Break"
      by (intro LengthFieldFramer_body_short_field) simp_all
    then show ?thesis by (simp add: LengthFieldFramer_def frame_loop_Break)
  qed
  have 3: "LengthFieldFramer off w a strip ord buf
         = Some (Returned [] [] (Some (UnsupportedLengthFieldSize w)))"
    if "w \<noteq> 1 \<and> w \<noteq> 2 \<and> w \<noteq> 4 \<and> w \<noteq> 8 \<and> 0 \<le> off \<and> 0 \<le> w
      \<and> off + w \<le> int (length buf) \<and> int (length buf) < 2 ^ 63"
  proof -
    from that have "LengthFieldFramer_body off w a strip ord buf = Fail (UnsupportedLengthFieldSize w)"
      by (intro LengthFieldFramer_body_unsupported) simp_all
    then show ?thesis by (simp add: LengthFieldFramer_def frame_loop_Fail)
  qed
  have 4: "LengthFieldFramer 0 4 0 4 BigEndian [0, 0, 0, 5, 72, 101, 108, 108, 111, 0, 0, 0, 3, 65, 66]
       = Some (Returned [[72, 101, 108, 108, 111]] [0, 0, 0, 3, 65, 66] None)"
    by (simp add: LengthFieldFramer_def frame_loop.simps LengthFieldFramer_body_def slice_ok_def
        subslice_def to_int64_def to_uint64_def order_Uint_def be_value_def Let_def)
  from 1 2 3 4 show ?thesis by blast
qed

text \<open>
  Example 3 of the source's comment (the length counts the header: adjustment -4), with
  two packets and three bytes of a third; a little-endian field of two bytes behind a magic
  number; the two buffers where the packet end is 0, which are outside the amended claim;
  a field that is not yet present; and a three-byte field, refused once three bytes are
  there.
\<close>

theorem LengthFieldFramer_packets_witness:
  "packets 0 4 (- 4) 4 BigEndian [0, 0, 0, 9, 1, 2, 3, 4, 5, 0, 0, 0, 6, 7, 8, 0, 0, 0]
     = Some ([[1, 2, 3, 4, 5], [7, 8]], [0, 0, 0])
   \<and> LengthFieldFramer 0 4 (- 4) 4 BigEndian [0, 0, 0, 9, 1, 2, 3, 4, 5, 0, 0, 0, 6, 7, 8, 0, 0, 0]
     = Some (Returned [[1, 2, 3, 4, 5], [7, 8]] [0, 0, 0] None)
   \<and> packets 2 2 0 4 LittleEndian [171, 205, 3, 0, 72, 105, 33, 171, 205, 2]
     = Some ([[72, 105, 33]], [171, 205, 2])
   \<and> LengthFieldFramer 2 2 0 4 LittleEndian [171, 205, 3, 0, 72, 105, 33, 171, 205, 2]
     = Some (Returned [[72, 105, 33]] [171, 205, 2] None)
   \<and> packets 0 1 (- 1) 0 BigEndian [0] = None
   \<and> packets 0 4 (- 4) 4 BigEndian [0, 0, 0, 0] = None
   \<and> LengthFieldFramer 0 4 0 4 BigEndian [0, 0] = Some (Returned [] [0, 0] None)
   \<and> LengthFieldFramer 0 3 0 0 BigEndian [1, 2, 3]
     = Some (Returned [] [] (Some (UnsupportedLengthFieldSize 3)))"
proof -
  have p1: "packets 0 4 (- 4) 4 BigEndian [0, 0, 0, 9, 1, 2, 3, 4, 5, 0, 0, 0, 6, 7, 8, 0, 0, 0]
     = Some ([[1, 2, 3, 4, 5], [7, 8]], [0, 0, 0])"
    by code_simp
  have p2: "packets 2 2 0 4 LittleEndian [171, 205, 3, 0, 72, 105, 33, 171, 205, 2]
     = Some ([[72, 105, 33]], [171, 205, 2])"
    by code_simp
  have p3: "packets 0 1 (- 1) 0 BigEndian [0] = None"
    by code_simp
  have p4: "packets 0 4 (- 4) 4 BigEndian [0, 0, 0, 0] = None"
    by code_simp
  have a: "LengthFieldFramer 0 4 (- 4) 4 BigEndian [0, 0, 0, 9, 1, 2, 3, 4, 5, 0, 0, 0, 6, 7, 8, 0, 0, 0]
     = Some (Returned [[1, 2, 3, 4, 5], [7, 8]] [0, 0, 0] None)"
    using LengthFieldFramer_packets [of 4 0 "[0, 0, 0, 9, 1, 2, 3, 4, 5, 0, 0, 0, 6, 7, 8, 0, 0, 0]"
        "- 4" 4 BigEndian "[[1, 2, 3, 4, 5], [7, 8]]" "[0, 0, 0]"] p1
    by simp
  have b: "LengthFieldFramer 2 2 0 4 LittleEndian [171, 205, 3, 0, 72, 105, 33, 171, 205, 2]
     = Some (Returned [[72, 105, 33]] [171, 205, 2] None)"
    using LengthFieldFramer_packets [of 2 2 "[171, 205, 3, 0, 72, 105, 33, 171, 205, 2]"
        0 4 LittleEndian "[[72, 105, 33]]" "[171, 205, 2]"] p2
    by simp
  have c: "LengthFieldFramer 0 4 0 4 BigEndian [0, 0] = Some (Returned [] [0, 0] None)"
    using LengthFieldFramer_packets [of 4 0 "[0, 0]" 0 4 BigEndian]
    by simp
  have d: "LengthFieldFramer 0 3 0 0 BigEndian [1, 2, 3]
     = Some (Returned [] [] (Some (UnsupportedLengthFieldSize 3)))"
    using LengthFieldFramer_packets [of 3 0 "[1, 2, 3]" 0 0 BigEndian]
    by simp
  show ?thesis using p1 p2 p3 p4 a b c d by simp
qed

section \<open>Framer composability\<close>

lemma FixedLengthFramer_composable:
  assumes "0 < len"
  shows "\<exists>fs r. FixedLengthFramer len (concat chunks) = Some (Returned fs r None)
           \<and> feed (FixedLengthFramer len) [] chunks = Some (Returned fs r None)"
proof -
  let ?body = "FixedLengthFramer_body len"
  from FixedLengthFramer_returns [OF assms]
  obtain fs r where run: "frame_loop ?body (concat chunks) [] = Some (Returned fs r None)"
    by blast
  have "?body [] = Break" using assms by (simp add: FixedLengthFramer_body_def)
  with feed_frame_loop [OF stable_FixedLengthFramer_body, of len "[]" chunks fs r] run
  have "feed (\<lambda>b. frame_loop ?body b []) [] chunks = Some (Returned fs r None)"
    by simp
  moreover have "FixedLengthFramer len = (\<lambda>b. frame_loop ?body b [])"
    by (rule ext) (simp add: FixedLengthFramer_def)
  ultimately show ?thesis using run by (auto simp: FixedLengthFramer_def)
qed

lemma DelimiterFramer_composable:
  assumes "delim \<noteq> []"
  shows "\<exists>fs r. DelimiterFramer delim (concat chunks) = Some (Returned fs r None)
           \<and> feed (DelimiterFramer delim) [] chunks = Some (Returned fs r None)"
proof -
  let ?body = "DelimiterFramer_body delim"
  from DelimiterFramer_returns [OF assms]
  obtain fs r where run: "frame_loop ?body (concat chunks) [] = Some (Returned fs r None)"
    by blast
  have "?body [] = Break" using assms by (simp add: DelimiterFramer_body_def)
  with feed_frame_loop [OF stable_DelimiterFramer_body, of delim "[]" chunks fs r] run
  have "feed (\<lambda>b. frame_loop ?body b []) [] chunks = Some (Returned fs r None)"
    by simp
  moreover have "DelimiterFramer delim = (\<lambda>b. frame_loop ?body b [])"
    by (rule ext) (simp add: DelimiterFramer_def)
  ultimately show ?thesis using run by (auto simp: DelimiterFramer_def)
qed

lemma LengthFieldFramer_composable:
  assumes "LengthFieldFramer off w a strip ord (concat chunks) = Some (Returned fs r None)"
  shows "feed (LengthFieldFramer off w a strip ord) [] chunks = Some (Returned fs r None)"
proof -
  let ?body = "LengthFieldFramer_body off w a strip ord"
  have st: "stable ?body" by (rule stable_LengthFieldFramer_body)
  from assms have run: "frame_loop ?body ([] @ concat chunks) [] = Some (Returned fs r None)"
    by (simp add: LengthFieldFramer_def)
  have base: "?body [] = Break" if "chunks = []"
  proof -
    from run that have "frame_loop ?body [] [] = Some (Returned fs r None)" by simp
    from frame_loop_remainder [OF this st] show ?thesis by auto
  qed
  from feed_frame_loop [OF st run base]
  have "feed (\<lambda>b. frame_loop ?body b []) [] chunks = Some (Returned fs r None)" .
  moreover have "LengthFieldFramer off w a strip ord = (\<lambda>b. frame_loop ?body b [])"
    by (rule ext) (simp add: LengthFieldFramer_def)
  ultimately show ?thesis by simp
qed

lemma feed_RawFramer: "feed RawFramer [] chunks = Some (Returned chunks [] None)"
  by (induction chunks) (simp_all add: RawFramer_def)

text \<open>
  C3, as stated, fails for the pass-through framer, which emits every buffer it is given
  as one frame: fed the chunks \<open>[1]\<close> and \<open>[2]\<close> it yields two frames, called once on
  their concatenation it yields one.
\<close>

theorem RawFramer_not_composable:
  "feed RawFramer [] [[1], [2]] = Some (Returned [[1], [2]] [] None)
   \<and> RawFramer (concat [[1], [2]]) = Some (Returned [[1, 2]] [] None)
   \<and> feed RawFramer [] [[1], [2]] \<noteq> RawFramer (concat [[1], [2]])"
  by (simp add: RawFramer_def)

text \<open>
  C3, amended. For \<open>FixedLengthFramer\<close> with a positive length and for
  \<open>DelimiterFramer\<close> with a delimiter that is not empty, the call on the concatenation of
  the chunks returns, and feeding the chunks one by one with the remainder-carry rule
  returns the same frames and the same remainder. For \<open>LengthFieldFramer\<close> the same
  holds whenever the call on the concatenation returns without an error. \<open>RawFramer\<close>
  fed chunk by chunk yields the chunks themselves, one frame each, where the single call
  yields the concatenation as one frame.
\<close>

theorem framers_composable:
  "(0 < len \<longrightarrow>
      (\<exists>fs r. FixedLengthFramer len (concat chunks) = Some (Returned fs r None)
         \<and> feed (FixedLengthFramer len) [] chunks = Some (Returned fs r None)))
   \<and> (delim \<noteq> [] \<longrightarrow>
      (\<exists>fs r. DelimiterFramer delim (concat chunks) = Some (Returned fs r None)
         \<and> feed (DelimiterFramer delim) [] chunks = Some (Returned fs r None)))
   \<and> (LengthFieldFramer off w a strip ord (concat chunks) = Some (Returned fs r None) \<longrightarrow>
      feed (LengthFieldFramer off w a strip ord) [] chunks = Some (Returned fs r None))
   \<and> feed RawFramer [] chunks = Some (Returned chunks [] None)
   \<and> RawFramer (concat chunks) = Some (Returned [concat chunks] [] None)"
  using FixedLengthFramer_composable [of len chunks] DelimiterFramer_composable [of delim chunks]
    LengthFieldFramer_composable [of off w a strip ord chunks fs r] feed_RawFramer [of chunks]
  by (simp add: RawFramer_def)

text \<open>
  The examples of the source and of the specification, fed in chunks: "AB", "CDEFG", "HIJK"
  with length 3; the lines "PING", "PONG" and "PAR", "TIAL" with the line delimiter; the two packets of
  the length-field scenario with the last byte in a chunk of its own.
\<close>

theorem framers_composable_witness:
  "feed (FixedLengthFramer 3) [] [[65, 66], [67, 68, 69, 70, 71], [72, 73, 74, 75]]
     = Some (Returned [[65, 66, 67], [68, 69, 70], [71, 72, 73]] [74, 75] None)
   \<and> feed (DelimiterFramer [10]) [] [[80, 73, 78, 71, 10, 80, 79, 78, 71, 10, 80, 65, 82], [84, 73, 65, 76, 10]]
     = Some (Returned [[80, 73, 78, 71], [80, 79, 78, 71], [80, 65, 82, 84, 73, 65, 76]] [] None)
   \<and> feed (LengthFieldFramer 0 4 0 4 BigEndian) [] [[0, 0, 0, 5, 72, 101, 108, 108, 111, 0, 0, 0, 3, 65, 66], [67]]
     = Some (Returned [[72, 101, 108, 108, 111], [65, 66, 67]] [] None)"
proof -
  have f: "FixedLengthFramer 3 (concat [[65, 66], [67, 68, 69, 70, 71], [72, 73, 74, 75]])
     = Some (Returned [[65, 66, 67], [68, 69, 70], [71, 72, 73]] [74, 75] None)"
    by (simp add: FixedLengthFramer_def frame_loop.simps FixedLengthFramer_body_def
        slice_ok_def subslice_def)
  have d: "DelimiterFramer [10] (concat [[80, 73, 78, 71, 10, 80, 79, 78, 71, 10, 80, 65, 82], [84, 73, 65, 76, 10]])
     = Some (Returned [[80, 73, 78, 71], [80, 79, 78, 71], [80, 65, 82, 84, 73, 65, 76]] [] None)"
    by (simp add: DelimiterFramer_def frame_loop.simps DelimiterFramer_body_def
        subslice_def Let_def)
  have l: "LengthFieldFramer 0 4 0 4 BigEndian (concat [[0, 0, 0, 5, 72, 101, 108, 108, 111, 0, 0, 0, 3, 65, 66], [67]])
     = Some (Returned [[72, 101, 108, 108, 111], [65, 66, 67]] [] None)"
    by (simp add: LengthFieldFramer_def frame_loop.simps LengthFieldFramer_body_def slice_ok_def
        subslice_def to_int64_def to_uint64_def order_Uint_def be_value_def Let_def)
  have 1: "feed (FixedLengthFramer 3) [] [[65, 66], [67, 68, 69, 70, 71], [72, 73, 74, 75]]
     = Some (Returned [[65, 66, 67], [68, 69, 70], [71, 72, 73]] [74, 75] None)"
    using framers_composable [of 3 "[[65, 66], [67, 68, 69, 70, 71], [72, 73, 74, 75]]"] f by auto
  have 2: "feed (DelimiterFramer [10]) [] [[80, 73, 78, 71, 10, 80, 79, 78, 71, 10, 80, 65, 82], [84, 73, 65, 76, 10]]
     = Some (Returned [[80, 73, 78, 71], [80, 79, 78, 71], [80, 65, 82, 84, 73, 65, 76]] [] None)"
    using framers_composable [of _ "[[80, 73, 78, 71, 10, 80, 79, 78, 71, 10, 80, 65, 82], [84, 73, 65, 76, 10]]" "[10]"] d by auto
  have 3: "feed (LengthFieldFramer 0 4 0 4 BigEndian) [] [[0, 0, 0, 5, 72, 101, 108, 108, 111, 0, 0, 0, 3, 65, 66], [67]]
     = Some (Returned [[72, 101, 108, 108, 111], [65, 66, 67]] [] None)"
    using framers_composable [of _ "[[0, 0, 0, 5, 72, 101, 108, 108, 111, 0, 0, 0, 3, 65, 66], [67]]" _ 0 4 0 4 BigEndian
        "[[72, 101, 108, 108, 111], [65, 66, 67]]" "[]"] l
    by blast
  show ?thesis using 1 2 3 by simp
qed

section \<open>Framers: panics and calls that do not return\<close>

lemma FixedLengthFramer_zero: "FixedLengthFramer 0 buf = None"
proof -
  have "FixedLengthFramer_body 0 buf = Emit [] buf"
    by (simp add: FixedLengthFramer_body_def slice_ok_def subslice_def)
  then show ?thesis
    unfolding FixedLengthFramer_def by (rule frame_loop_stuck)
qed

lemma Index_empty_sep: "Index buf [] = 0"
  by (cases buf) simp_all

lemma DelimiterFramer_empty: "DelimiterFramer [] buf = None"
proof -
  have "DelimiterFramer_body [] buf = Emit [] buf"
    by (simp add: DelimiterFramer_body_def Index_empty_sep subslice_def)
  then show ?thesis
    unfolding DelimiterFramer_def by (rule frame_loop_stuck)
qed

lemma LengthFieldFramer_zero_end: "LengthFieldFramer 0 1 (- 1) 0 BigEndian [0] = None"
proof -
  have "LengthFieldFramer_body 0 1 (- 1) 0 BigEndian [0] = Emit [] [0]"
    by (simp add: LengthFieldFramer_body_def slice_ok_def subslice_def to_int64_def
        to_uint64_def order_Uint_def be_value_def Let_def)
  then show ?thesis
    unfolding LengthFieldFramer_def by (rule frame_loop_stuck)
qed

text \<open>
  C9. The claim: every bundled framer returns, without panicking, for every input and
  every parameter combination. With the parameters of example 3 of its own comment
  (0, 4, -4, 4, big-endian), \<open>LengthFieldFramer\<close> on the four bytes 00 00 00 00 computes
  the frame end 0 and panics on \<open>buf[4:0]\<close>; with a strip count beyond the frame end
  (0, 1, 0, 2) it panics on \<open>buf[2:1]\<close>; with a frame end of 0 (0, 1, -1, 0) it emits
  empty frames forever. \<open>FixedLengthFramer\<close> panics on \<open>buf[:length]\<close> for a negative
  length and never returns for length 0, and \<open>DelimiterFramer\<close> never returns for an empty
  delimiter.
\<close>

theorem framers_panic_or_do_not_return:
  "LengthFieldFramer 0 4 (- 4) 4 BigEndian [0, 0, 0, 0] = Some Panicked
   \<and> LengthFieldFramer 0 1 0 2 BigEndian [0] = Some Panicked
   \<and> LengthFieldFramer 0 1 (- 1) 0 BigEndian [0] = None
   \<and> FixedLengthFramer (- 1) buf = Some Panicked
   \<and> FixedLengthFramer 0 buf = None
   \<and> DelimiterFramer [] buf = None"
proof -
  have "LengthFieldFramer 0 4 (- 4) 4 BigEndian [0, 0, 0, 0] = Some Panicked"
    by (simp add: LengthFieldFramer_def frame_loop.simps LengthFieldFramer_body_def slice_ok_def
        subslice_def to_int64_def to_uint64_def order_Uint_def be_value_def Let_def)
  moreover have "LengthFieldFramer 0 1 0 2 BigEndian [0] = Some Panicked"
    by (simp add: LengthFieldFramer_def frame_loop.simps LengthFieldFramer_body_def slice_ok_def
        subslice_def to_int64_def to_uint64_def order_Uint_def be_value_def Let_def)
  moreover have "FixedLengthFramer (- 1) buf = Some Panicked"
    by (simp add: FixedLengthFramer_def frame_loop_Crash FixedLengthFramer_body_def slice_ok_def)
  ultimately show ?thesis
    by (simp add: LengthFieldFramer_zero_end FixedLengthFramer_zero DelimiterFramer_empty)
qed

section \<open>Router: the cache\<close>

lemma set_MoveToFront: "set (MoveToFront key v l) \<subseteq> insert (key, v) (set l)"
  by (auto simp: MoveToFront_def)

lemma lru_Get_entries:
  "set (ll (snd (lru_Get c key))) \<subseteq> set (ll c)"
proof (cases "map_of (ll c) key")
  case None
  then show ?thesis by (simp add: lru_Get_def)
next
  case (Some v)
  then have "(key, v) \<in> set (ll c)" by (rule map_of_SomeD)
  then show ?thesis using Some set_MoveToFront [of key v "ll c"]
    by (auto simp: lru_Get_def)
qed

lemma lru_Get_hit: "fst (lru_Get c key) = Some v \<Longrightarrow> (key, v) \<in> set (ll c)"
  by (auto simp: lru_Get_def split: option.splits dest: map_of_SomeD)

lemma lru_Add_entries: "set (ll (lru_Add c key v)) \<subseteq> insert (key, v) (set (ll c))"
proof -
  have "set (butlast ((key, v) # ll c)) \<subseteq> insert (key, v) (set (ll c))"
  proof
    fix e assume "e \<in> set (butlast ((key, v) # ll c))"
    then have "e \<in> set ((key, v) # ll c)" by (rule in_set_butlastD)
    then show "e \<in> insert (key, v) (set (ll c))" by simp
  qed
  then show ?thesis
    using set_MoveToFront [of key v "ll c"]
    by (auto simp: lru_Add_def removeOldest_def Let_def split: option.splits)
qed

lemma Match_fst:
  assumes "cache_agrees r"
  shows "fst (Match r p) = Trie_Query (trie r) (SplitPath (sep r) p)"
proof (cases "cache r")
  case None
  then show ?thesis
    by (simp add: Match_def Let_def split: option.splits)
next
  case (Some c)
  show ?thesis
  proof (cases "fst (lru_Get c p)")
    case None
    then show ?thesis using Some
      by (auto simp: Match_def Let_def split: option.splits prod.splits)
  next
    case (Some v)
    then have "(p, v) \<in> set (ll c)" by (rule lru_Get_hit)
    with assms \<open>cache r = Some c\<close>
    have "Trie_Query (trie r) (SplitPath (sep r) p) = Some v"
      by (auto simp: cache_agrees_def cached_def list_all_iff)
    then show ?thesis using Some \<open>cache r = Some c\<close>
      by (auto simp: Match_def Let_def split: option.splits prod.splits)
  qed
qed

lemma Match_fields:
  "trie (snd (Match r p)) = trie r \<and> sep (snd (Match r p)) = sep r
   \<and> rootGroup (snd (Match r p)) = rootGroup r \<and> heap (snd (Match r p)) = heap r
   \<and> notFound (snd (Match r p)) = notFound r"
  by (auto simp: Match_def Let_def split: option.splits prod.splits)

lemma Match_cached:
  "set (cached (snd (Match r p)))
     \<subseteq> set (cached r) \<union> (case Trie_Query (trie r) (SplitPath (sep r) p) of
                          None \<Rightarrow> {} | Some route \<Rightarrow> {(p, route)})"
proof (cases "cache r")
  case None
  then show ?thesis
    by (auto simp: Match_def cached_def Let_def split: option.splits)
next
  case (Some c)
  obtain v c1 where g: "lru_Get c p = (v, c1)" by (cases "lru_Get c p")
  then have c1: "set (ll c1) \<subseteq> set (ll c)" using lru_Get_entries [of c p] by simp
  show ?thesis
  proof (cases v)
    case (Some x)
    then show ?thesis using \<open>cache r = Some c\<close> g c1
      by (auto simp: Match_def cached_def Let_def)
  next
    case None
    show ?thesis
    proof (cases "Trie_Query (trie r) (SplitPath (sep r) p)")
      case None
      then show ?thesis using \<open>cache r = Some c\<close> g c1 \<open>v = None\<close>
        by (auto simp: Match_def cached_def Let_def)
    next
      case (Some route)
      then show ?thesis
        using \<open>cache r = Some c\<close> g c1 \<open>v = None\<close> lru_Add_entries [of c1 p route]
        by (auto simp: Match_def cached_def Let_def)
    qed
  qed
qed

lemma Match_agrees:
  assumes "cache_agrees r"
  shows "cache_agrees (snd (Match r p))"
proof -
  have "\<forall>e\<in>set (cached (snd (Match r p))).
          Trie_Query (trie r) (SplitPath (sep r) (fst e)) = Some (snd e)"
  proof
    fix e assume "e \<in> set (cached (snd (Match r p)))"
    with Match_cached [of r p]
    have "e \<in> set (cached r) \<or> Trie_Query (trie r) (SplitPath (sep r) p) = Some (snd e) \<and> fst e = p"
      by (auto split: option.splits)
    then show "Trie_Query (trie r) (SplitPath (sep r) (fst e)) = Some (snd e)"
      using assms by (auto simp: cache_agrees_def list_all_iff)
  qed
  then show ?thesis
    by (simp add: cache_agrees_def list_all_iff Match_fields)
qed


lemma Handlers_fields:
  "Handlers g r = Some (s, r1) \<Longrightarrow> trie r1 = trie r \<and> sep r1 = sep r \<and> cache r1 = cache r"
  by (auto simp: Handlers_def split: option.splits prod.splits if_splits)

lemma Route_Handlers_fields:
  "Route_Handlers route r = Some (hs, r1) \<Longrightarrow>
   trie r1 = trie r \<and> sep r1 = sep r \<and> cache r1 = cache r"
  by (auto simp: Route_Handlers_def split: option.splits prod.splits dest: Handlers_fields)

lemma agrees_cong:
  "trie r1 = trie r \<Longrightarrow> sep r1 = sep r \<Longrightarrow> cache r1 = cache r \<Longrightarrow>
   cache_agrees r1 = cache_agrees r"
  by (simp add: cache_agrees_def cached_def)

lemma Serve_agrees:
  assumes "cache_agrees r" and "Serve p r = Some r2"
  shows "cache_agrees r2"
proof -
  obtain v r1 where m: "Match r p = (v, r1)" by (cases "Match r p")
  with Match_agrees [OF assms(1), of p] have a: "cache_agrees r1" by simp
  show ?thesis
  proof (cases v)
    case None
    with m a assms(2) show ?thesis by (simp add: Serve_def)
  next
    case (Some route)
    with m assms(2) obtain hs where "Route_Handlers route r1 = Some (hs, r2)"
      by (auto simp: Serve_def)
    from Route_Handlers_fields [OF this] have "cache_agrees r2 = cache_agrees r1"
      by (intro agrees_cong) simp_all
    with a show ?thesis by simp
  qed
qed

lemma Router_insert_cached: "Router_insert r route = Some r1 \<Longrightarrow> cached r1 = []"
  by (auto simp: Router_insert_def cached_def lru_Clear_def split: option.splits)

lemma agrees_empty: "cached r = [] \<Longrightarrow> cache_agrees r"
  by (simp add: cache_agrees_def)

lemma Group_fields:
  "Group g pre r = Some (g1, r1) \<Longrightarrow> trie r1 = trie r \<and> sep r1 = sep r \<and> cache r1 = cache r"
  by (auto simp: Group_def Let_def split: option.splits if_splits)

lemma Use_fields:
  "Use g hs r = Some r1 \<Longrightarrow> trie r1 = trie r \<and> sep r1 = sep r \<and> cache r1 = cache r"
  by (auto simp: Use_def split: option.splits if_splits prod.splits)

lemma do_call_agrees:
  assumes "cache_agrees r" and "do_call r c = Some r1"
  shows "cache_agrees r1"
proof (cases c)
  case (CallLru sz)
  with assms(2) show ?thesis
    by (auto simp: Lru_def Let_def newLRUCache_def cached_def intro!: agrees_empty)
next
  case (CallNotFound hs)
  with assms show ?thesis
    by (auto simp: NotFound_def cache_agrees_def cached_def)
next
  case (CallMatch p)
  with assms show ?thesis using Match_agrees [of r p] by auto
next
  case (CallGroup g pre)
  with assms(2) obtain g1 where "Group g pre r = Some (g1, r1)" by auto
  from Group_fields [OF this] have "cache_agrees r1 = cache_agrees r"
    by (intro agrees_cong) simp_all
  with assms(1) show ?thesis by simp
next
  case (CallUse g hs)
  with assms(2) have "Use g hs r = Some r1" by simp
  from Use_fields [OF this] have "cache_agrees r1 = cache_agrees r"
    by (intro agrees_cong) simp_all
  with assms(1) show ?thesis by simp
next
  case (CallHandle g p hs)
  with assms show ?thesis
    by (auto simp: Handle_def split: option.splits if_splits
        intro!: agrees_empty dest: Router_insert_cached)
next
  case (CallServe p)
  with assms show ?thesis using Serve_agrees [of r p r1] by auto
qed

lemma do_calls_agrees:
  "cache_agrees r \<Longrightarrow> do_calls r cs = Some r1 \<Longrightarrow> cache_agrees r1"
proof (induction cs arbitrary: r)
  case Nil
  then show ?case by simp
next
  case (Cons c cs)
  then obtain r2 where c: "do_call r c = Some r2" and cs: "do_calls r2 cs = Some r1"
    by (auto split: option.splits)
  from do_call_agrees [OF Cons.prems(1) c] have "cache_agrees r2" .
  from Cons.IH [OF this cs] show ?case .
qed

lemma Match_transparent:
  assumes "cache_agrees r"
  shows "fst (Match r p) = fst (Match (r\<lparr>cache := None\<rparr>) p)"
    and "fst (Match r p) = fst (Match (r\<lparr>cache := Some (newLRUCache n)\<rparr>) p)"
proof -
  have a: "cache_agrees (r\<lparr>cache := None\<rparr>)"
    by (simp add: cache_agrees_def cached_def)
  have b: "cache_agrees (r\<lparr>cache := Some (newLRUCache n)\<rparr>)"
    by (simp add: cache_agrees_def cached_def newLRUCache_def)
  show "fst (Match r p) = fst (Match (r\<lparr>cache := None\<rparr>) p)"
    using Match_fst [OF assms, of p] Match_fst [OF a, of p] by simp
  show "fst (Match r p) = fst (Match (r\<lparr>cache := Some (newLRUCache n)\<rparr>) p)"
    using Match_fst [OF assms, of p] Match_fst [OF b, of p] by simp
qed

section \<open>Trie: insertion\<close>

lemma ptrs_below_mono: "ptrs_below a cur ps \<Longrightarrow> a \<le> b \<Longrightarrow> ptrs_below b cur ps"
  by (induction a cur ps rule: ptrs_below.induct) (auto split: option.splits)

lemma CompareAndSwap_ok:
  "map_option fst (children n) = old \<Longrightarrow>
   CompareAndSwap n old new = (True, Node (part n) (val n) (Some new))"
  by (simp add: CompareAndSwap_def)

lemma CompareAndSwap_fail:
  "map_option fst (children n) \<noteq> old \<Longrightarrow> CompareAndSwap n old new = (False, n)"
  by (simp add: CompareAndSwap_def)

lemma Insert_from_needs_path:
  assumes "Insert_from a v parts cur = Some res" and "ptrs_below a cur parts"
  shows "has_path cur parts"
  using assms
proof (induction a v parts cur res rule: Insert_from.raw_induct)
  case (1 ins a v parts cur res)
  show ?case
  proof (cases parts)
    case Nil
    then show ?thesis by simp
  next
    case (Cons p rest)
    show ?thesis
    proof (cases "children cur")
      case None
      let ?cur1 = "Node (part cur) (val cur) (Some (a, Map.empty))"
      have c1: "CompareAndSwap cur None (a, Map.empty) = (True, ?cur1)"
        using None by (intro CompareAndSwap_ok) simp
      have c2: "CompareAndSwap ?cur1 (Some (a + 1)) (a + 2, Map.empty(p \<mapsto> Node p None None))
          = (False, ?cur1)"
        by (intro CompareAndSwap_fail) simp
      from 1(2) have step: "ins (a + 3) v parts ?cur1 = Some res"
        unfolding Cons list.case None option.case Let_def c1 c2 fst_conv snd_conv
        by simp
      from 1(3) have run: "Insert_from (a + 3) v parts ?cur1 = Some res"
        apply (subst (asm) Insert_from.simps)
        unfolding Cons list.case None option.case Let_def c1 c2 fst_conv snd_conv
        by simp
      have "ptrs_below (a + 3) ?cur1 parts" using Cons by simp
      from 1(1) [OF step run this] have "has_path ?cur1 parts" .
      then show ?thesis using Cons by simp
    next
      case (Some ptr)
      show ?thesis
      proof (cases "snd ptr p")
        case None
        have "fst ptr < a" using Some 1(4) Cons by simp
        then have c: "CompareAndSwap cur (Some a) (a + 1, (snd ptr)(p \<mapsto> Node p None None))
            = (False, cur)"
          using Some by (intro CompareAndSwap_fail) auto
        from 1(2) have step: "ins (a + 2) v parts cur = Some res"
          unfolding Cons list.case Some option.case None Let_def c fst_conv snd_conv
          by simp
        from 1(3) have run: "Insert_from (a + 2) v parts cur = Some res"
          apply (subst (asm) Insert_from.simps)
          unfolding Cons list.case Some option.case None Let_def c fst_conv snd_conv
          by simp
        have "ptrs_below (a + 2) cur parts"
          using 1(4) by (rule ptrs_below_mono) simp
        from 1(1) [OF step run this] show ?thesis .
      next
        case (Some child)
        note child = this
        let ?f = "\<lambda>r. Some (Node (part cur) (val cur)
                                   (Some (fst ptr, (snd ptr)(p \<mapsto> fst r))), snd r)"
        from 1(2) have "Option.bind (ins (a + 1) v rest child) ?f = Some res"
          unfolding Cons list.case \<open>children cur = Some ptr\<close> option.case child
          by simp
        then obtain r where step: "ins (a + 1) v rest child = Some r" and fr: "?f r = Some res"
          by (auto simp: Option.bind_eq_Some_conv)
        from 1(3) have "Option.bind (Insert_from (a + 1) v rest child) ?f = Some res"
          apply (subst (asm) Insert_from.simps)
          unfolding Cons list.case \<open>children cur = Some ptr\<close> option.case child
          by simp
        then obtain r2 where run2: "Insert_from (a + 1) v rest child = Some r2"
          and fr2: "?f r2 = Some res"
          by (auto simp: Option.bind_eq_Some_conv)
        from fr fr2 have "fst r = fst r2" "snd r = snd r2"
          by (auto dest: fun_upd_eqD)
        then have "r2 = r" by (simp add: prod_eq_iff)
        with run2 have run: "Insert_from (a + 1) v rest child = Some r" by simp
        have "ptrs_below a child rest"
          using 1(4) Cons \<open>children cur = Some ptr\<close> child by simp
        then have pb: "ptrs_below (a + 1) child rest"
          by (rule ptrs_below_mono) simp
        from 1(1) [OF step run pb] have "has_path child rest" .
        then show ?thesis using Cons \<open>children cur = Some ptr\<close> child by simp
      qed
    qed
  qed
qed (rule assms(1))

lemma Insert_from_leaf: "Insert_from a v [] cur = Some (Node (part cur) (Some v) (children cur), a)"
  by (subst Insert_from.simps) simp

text \<open>
  \<open>Trie.Insert\<close> with a path of at least one part into a new trie never returns: the
  child is absent, and the compare-and-swap that should publish the new map is given the
  address of the local variable \<open>children\<close>, which no stored pointer equals, so the loop
  retries forever.
\<close>

theorem Trie_Insert_new_child_never_returns:
  "Trie_Insert Trie_New v (p # ps) = None"
proof (cases "Insert_from 0 v (p # ps) (New_trie :: 'a Node)")
  case None
  then show ?thesis by (simp add: Trie_Insert_def Trie_New_def)
next
  case (Some res)
  have "ptrs_below 0 (New_trie :: 'a Node) (p # ps)" by (simp add: New_trie_def)
  from Insert_from_needs_path [OF Some this] show ?thesis by (simp add: New_trie_def)
qed


lemma Insert_from_no_children:
  assumes "children cur = None"
  shows "Insert_from a v (p # ps) cur = None"
proof (cases "Insert_from a v (p # ps) cur")
  case None
  then show ?thesis .
next
  case (Some res)
  have "ptrs_below a cur (p # ps)" using assms by simp
  from Insert_from_needs_path [OF Some this] show ?thesis using assms by simp
qed

lemma Router_insert_childless:
  assumes "childless r" and "Router_insert r route = Some r1"
  shows "childless r1 \<and> SplitPath (sep r) (path route) = []"
proof (cases "SplitPath (sep r) (path route)")
  case Nil
  with assms show ?thesis
    by (auto simp: Router_insert_def Trie_Insert_def Insert_from_leaf childless_def
        split: option.splits)
next
  case (Cons p ps)
  have "Insert_from (nextVar (trie r)) route (p # ps) (root (trie r)) = None"
    using assms(1) by (intro Insert_from_no_children) (simp add: childless_def)
  with assms(2) Cons show ?thesis
    by (simp add: Router_insert_def Trie_Insert_def)
qed

lemma Match_trie: "trie (snd (Match r p)) = trie r"
  by (auto simp: Match_def Let_def split: option.splits prod.splits)

lemma Serve_trie: "Serve p r = Some r2 \<Longrightarrow> trie r2 = trie r"
proof -
  assume s: "Serve p r = Some r2"
  obtain v r1 where m: "Match r p = (v, r1)" by (cases "Match r p")
  with Match_trie [of r p] have t: "trie r1 = trie r" by simp
  show ?thesis
  proof (cases v)
    case None
    with m s t show ?thesis by (simp add: Serve_def)
  next
    case (Some route)
    with m s obtain hs where "Route_Handlers route r1 = Some (hs, r2)"
      by (auto simp: Serve_def)
    from Route_Handlers_fields [OF this] t show ?thesis by simp
  qed
qed

lemma do_call_childless:
  assumes "childless r" and "do_call r c = Some r1"
  shows "childless r1"
proof (cases c)
  case (CallHandle g p hs)
  with assms show ?thesis
    by (auto simp: Handle_def split: if_splits option.splits dest: Router_insert_childless)
next
  case (CallMatch p)
  with assms show ?thesis by (auto simp: childless_def Match_trie)
next
  case (CallServe p)
  with assms show ?thesis by (auto simp: childless_def dest: Serve_trie)
next
  case (CallGroup g pre)
  with assms show ?thesis by (auto simp: childless_def dest: Group_fields)
next
  case (CallUse g hs)
  with assms show ?thesis by (auto simp: childless_def dest: Use_fields)
qed (use assms in \<open>auto simp: childless_def Lru_def NotFound_def Let_def\<close>)

lemma do_calls_childless:
  "childless r \<Longrightarrow> do_calls r cs = Some r1 \<Longrightarrow> childless r1"
proof (induction cs arbitrary: r)
  case Nil
  then show ?case by simp
next
  case (Cons c cs)
  then obtain r2 where c: "do_call r c = Some r2" and cs: "do_calls r2 cs = Some r1"
    by (auto split: option.splits)
  from do_call_childless [OF Cons.prems(1) c] have "childless r2" .
  from Cons.IH [OF this cs] show ?case .
qed

lemma childless_NewRouter: "childless (NewRouter runtimeGrow sp)"
  by (simp add: childless_def NewRouter_def Trie_New_def New_trie_def)

lemma Router_insert_returns_iff:
  assumes "childless r"
  shows "if SplitPath (sep r) (path route) = []
         then \<exists>r2. Router_insert r route = Some r2 \<and> cached r2 = []
                \<and> Trie_Query (trie r2) [] = Some route
         else Router_insert r route = None"
proof (cases "SplitPath (sep r) (path route)")
  case Nil
  then show ?thesis
    by (auto simp: Router_insert_def Trie_Insert_def Insert_from_leaf Trie_Query_def cached_def
        lru_Clear_def split: option.splits)
next
  case (Cons p ps)
  have "Insert_from (nextVar (trie r)) route (p # ps) (root (trie r)) = None"
    using assms by (intro Insert_from_no_children) (simp add: childless_def)
  with Cons show ?thesis
    by (simp add: Router_insert_def Trie_Insert_def)
qed

lemma Handle_returns_iff:
  assumes "childless r" and "group_at (rootGroup r) g = Some grp" and "hs \<noteq> []"
  shows "if SplitPath (sep r) (JoinPath (sep r) [prefix grp, q]) = []
         then \<exists>r2. Handle g q hs r = Some r2 \<and> cached r2 = []
                \<and> Trie_Query (trie r2) []
                    = Some \<lparr>rgroup = g, path = JoinPath (sep r) [prefix grp, q], rmiddleware = hs\<rparr>
         else Handle g q hs r = None"
  using Router_insert_returns_iff [OF assms(1),
      of "\<lparr>rgroup = g, path = JoinPath (sep r) [prefix grp, q], rmiddleware = hs\<rparr>"] assms(2,3)
  by (simp add: Handle_def)

text \<open>
  C8. The first half of the claim holds: start from any router whose cached entries agree
  with its trie (a new router, a router without a cache or with an empty one) and make any
  sequence of calls that return; then \<open>Match\<close> gives the route that the trie holds for
  the path, the same as without a cache and as with an empty cache. The second half, that
  after any route insertion the cache has no entries, fails: on a router made by
  \<open>NewRouter\<close>, after any calls that returned, an insertion by \<open>Handle\<close> (with
  handlers, on a group of the router) or by \<open>insert\<close> returns, with the route stored
  and the cache emptied, exactly when the path splits into no part; for every other path the
  call never returns, because \<open>Trie.Insert\<close> does not, and the cache is never cleared.
  Here a router with a cache holds a route at the empty path and a cached match for it;
  \<open>Handle("Login", h1)\<close> on it never returns.
\<close>

theorem cache_transparent_insertion_never_returns:
  "(cache_agrees r0 \<and> do_calls r0 cs = Some r \<longrightarrow>
      fst (Match r p) = fst (Match (r\<lparr>cache := None\<rparr>) p)
      \<and> fst (Match r p) = fst (Match (r\<lparr>cache := Some (newLRUCache n)\<rparr>) p)
      \<and> fst (Match r p) = Trie_Query (trie r) (SplitPath (sep r) p))
   \<and> (do_calls (NewRouter runtimeGrow sp) cs1 = Some r1 \<and> group_at (rootGroup r1) g = Some grp
      \<and> hs \<noteq> [] \<longrightarrow>
      (if SplitPath (sep r1) (JoinPath (sep r1) [prefix grp, q]) = []
       then \<exists>r2. Handle g q hs r1 = Some r2 \<and> cached r2 = []
              \<and> Trie_Query (trie r2) []
                  = Some \<lparr>rgroup = g, path = JoinPath (sep r1) [prefix grp, q], rmiddleware = hs\<rparr>
       else Handle g q hs r1 = None))
   \<and> (do_calls (NewRouter runtimeGrow sp) cs1 = Some r1 \<longrightarrow>
      (if SplitPath (sep r1) (path route) = []
       then \<exists>r2. Router_insert r1 route = Some r2 \<and> cached r2 = []
              \<and> Trie_Query (trie r2) [] = Some route
       else Router_insert r1 route = None))
   \<and> (case do_calls (NewRouter runtimeGrow ''/'') [CallLru 8, CallHandle [] [] [h0], CallMatch []] of
        None \<Rightarrow> False
      | Some r3 \<Rightarrow> map fst (cached r3) = [[]] \<and> Handle [] ''Login'' [h1] r3 = None)"
proof -
  have 1: "fst (Match r p) = fst (Match (r\<lparr>cache := None\<rparr>) p)
      \<and> fst (Match r p) = fst (Match (r\<lparr>cache := Some (newLRUCache n)\<rparr>) p)
      \<and> fst (Match r p) = Trie_Query (trie r) (SplitPath (sep r) p)"
    if "cache_agrees r0 \<and> do_calls r0 cs = Some r"
  proof -
    from that have a: "cache_agrees r" by (auto intro: do_calls_agrees)
    show ?thesis
      using Match_transparent(1) [OF a, of p] Match_transparent(2) [OF a, of p n]
        Match_fst [OF a, of p] by simp
  qed
  have c: "childless r1" if "do_calls (NewRouter runtimeGrow sp) cs1 = Some r1"
    using do_calls_childless [OF childless_NewRouter that] .
  have 2: "if SplitPath (sep r1) (JoinPath (sep r1) [prefix grp, q]) = []
       then \<exists>r2. Handle g q hs r1 = Some r2 \<and> cached r2 = []
              \<and> Trie_Query (trie r2) []
                  = Some \<lparr>rgroup = g, path = JoinPath (sep r1) [prefix grp, q], rmiddleware = hs\<rparr>
       else Handle g q hs r1 = None"
    if "do_calls (NewRouter runtimeGrow sp) cs1 = Some r1 \<and> group_at (rootGroup r1) g = Some grp
      \<and> hs \<noteq> []"
    using that c by (intro Handle_returns_iff) simp_all
  have 3: "if SplitPath (sep r1) (path route) = []
       then \<exists>r2. Router_insert r1 route = Some r2 \<and> cached r2 = []
              \<and> Trie_Query (trie r2) [] = Some route
       else Router_insert r1 route = None"
    if "do_calls (NewRouter runtimeGrow sp) cs1 = Some r1"
    using that c by (intro Router_insert_returns_iff) simp_all
  have 4: "case do_calls (NewRouter runtimeGrow ''/'') [CallLru 8, CallHandle [] [] [h0], CallMatch []] of
        None \<Rightarrow> False
      | Some r3 \<Rightarrow> map fst (cached r3) = [[]] \<and> Handle [] ''Login'' [h1] r3 = None"
  proof -
    have sp: "SplitPath ''/'' [] = []" "JoinPath ''/'' [[], []] = []"
      "SplitPath ''/'' (JoinPath ''/'' [[], ''Login'']) = [''Login'']"
      by code_simp+
    obtain r3 where r3: "r3 = (NewRouter runtimeGrow ''/'')
        \<lparr>trie := \<lparr>root = Node [] (Some \<lparr>rgroup = [], path = [], rmiddleware = [h0]\<rparr>) None, nextVar = 0\<rparr>,
          cache := Some \<lparr>lcapacity = 8, ll = [([], \<lparr>rgroup = [], path = [], rmiddleware = [h0]\<rparr>)]\<rparr>\<rparr>"
      by simp
    have run: "do_calls (NewRouter runtimeGrow ''/'') [CallLru 8, CallHandle [] [] [h0], CallMatch []] = Some r3"
      unfolding r3
      by (simp add: NewRouter_def Lru_def newLRUCache_def Handle_def Router_insert_def sp
          Trie_Insert_def Trie_New_def New_trie_def Insert_from_leaf lru_Clear_def Match_def
          lru_Get_def lru_Add_def Trie_Query_def Let_def)
    have "childless r3" using do_calls_childless [OF childless_NewRouter run] .
    moreover have "group_at (rootGroup r3) [] = Some (RouterGroup [] Unlocked (Slice 0 0) False NilSlice [])"
      by (simp add: r3 NewRouter_def)
    ultimately have "Handle [] ''Login'' [h1] r3 = None"
      using Handle_returns_iff [of r3 "[]" _ "[h1]" "''Login''"] sp
      by (simp add: r3 NewRouter_def)
    moreover have "map fst (cached r3) = [[]]"
      by (simp add: r3 cached_def)
    ultimately show ?thesis unfolding run by simp
  qed
  from 1 2 3 4 show ?thesis by blast
qed

text \<open>
  A router with a cache of two entries and a route at the empty path, after a hit and a
  miss: the route is found through the cache as without it and the cache holds the one key;
  an insertion at a path of white space returns and empties the cache; insertions at
  \<open>api/Login\<close> and \<open>Login\<close> never return.
\<close>

theorem cache_transparent_insertion_never_returns_witness:
  "(case do_calls (NewRouter (\<lambda>oldCap needed. needed) ''/'' :: nat Router)
           [CallLru 2, CallHandle [] [] [7], CallMatch [], CallMatch ''x''] of
      None \<Rightarrow> False
    | Some r \<Rightarrow>
        fst (Match r []) = fst (Match (r\<lparr>cache := None\<rparr>) [])
        \<and> fst (Match r []) = Some \<lparr>rgroup = [], path = [], rmiddleware = [7]\<rparr>
        \<and> map fst (cached r) = [[]]
        \<and> map_option cached (Handle [] '' '' [8] r) = Some []
        \<and> Handle [] ''api/Login'' [8] r = None
        \<and> Router_insert r \<lparr>rgroup = [], path = ''Login'', rmiddleware = [8]\<rparr> = None)"
proof -
  have ev: "(case do_calls (NewRouter (\<lambda>oldCap needed. needed) ''/'' :: nat Router)
           [CallLru 2, CallHandle [] [] [7], CallMatch [], CallMatch ''x''] of
      None \<Rightarrow> False
    | Some r \<Rightarrow>
        fst (Match r []) = Some \<lparr>rgroup = [], path = [], rmiddleware = [7]\<rparr>
        \<and> map fst (cached r) = [[]]
        \<and> map_option cached (Handle [] '' '' [8] r) = Some []
        \<and> sep r = ''/''
        \<and> group_at (rootGroup r) [] = Some (RouterGroup [] Unlocked (Slice 0 0) False NilSlice []))"
    by code_simp
  then obtain r where r: "do_calls (NewRouter (\<lambda>oldCap needed. needed) ''/'' :: nat Router)
           [CallLru 2, CallHandle [] [] [7], CallMatch [], CallMatch ''x''] = Some r"
    by (auto split: option.splits)
  have ag: "cache_agrees (NewRouter (\<lambda>oldCap needed. needed) ''/'' :: nat Router)"
    by (simp add: cache_agrees_def cached_def NewRouter_def)
  have sp: "SplitPath ''/'' (JoinPath ''/'' [[], ''api/Login'']) = [''api'', ''Login'']"
    "SplitPath ''/'' ''Login'' = [''Login'']"
    by code_simp+
  note inst = cache_transparent_insertion_never_returns
    [of "NewRouter (\<lambda>oldCap needed. needed) ''/''"
        "[CallLru 2, CallHandle [] [] [7], CallMatch [], CallMatch ''x'']" r "[]" 0
        "\<lambda>oldCap needed. needed" "''/''"
        "[CallLru 2, CallHandle [] [] [7], CallMatch [], CallMatch ''x'']" r "[]"
        "RouterGroup [] Unlocked (Slice 0 0) False NilSlice []" "[8]" "''api/Login''"
        "\<lparr>rgroup = [], path = ''Login'', rmiddleware = [8]\<rparr>" "7 :: nat" "8 :: nat"]
  from inst ag r ev sp
  have "fst (Match r []) = fst (Match (r\<lparr>cache := None\<rparr>) [])
     \<and> Handle [] ''api/Login'' [8] r = None
     \<and> Router_insert r \<lparr>rgroup = [], path = ''Login'', rmiddleware = [8]\<rparr> = None"
    by simp
  with ev r show ?thesis by simp
qed

section \<open>Router middleware\<close>

lemma invalidateCache_WriteLocked: "invalidateCache (RouterGroup p WriteLocked mw v c ch) = None"
  by (simp add: RLock_def)




section \<open>Reaper threshold\<close>

lemma Reaper_closes_exactly_idle:
  "set (snd (Reaper now idle m)) = {(k, uc) \<in> set m. Sub (Now now) (LastActive uc) > idle}
   \<and> set (fst (Reaper now idle m))
       = {(k, uc) \<in> set m. \<not> Sub (Now now) (LastActive uc) > idle}"
  by (auto simp: Reaper_def)

text \<open>
  C2. The claim: the reaper's threshold is the configured idle timeout when that is
  positive and five minutes when it is unset. \<open>Listen\<close> tests \<open>idleTimeout > 0\<close>
  where the default needs \<open>idleTimeout <= 0\<close>: a configured 30 seconds becomes five
  minutes, and an unset timeout stays zero, on which the reaper's
  \<open>time.NewTicker(idle / 2)\<close> panics.
\<close>

theorem Listen_overwrites_configured_idle:
  "Listen_idleTimeout (30 * Second) = 5 * Minute
   \<and> Listen_idleTimeout (30 * Second) \<noteq> 30 * Second
   \<and> Listen_idleTimeout 0 = 0
   \<and> reaper_ticker (Listen_idleTimeout 0) = PanicNonPositiveInterval"
  by (simp add: Listen_idleTimeout_def reaper_ticker_def NewTicker_def Minute_def Second_def)


end
